theory Spec2Isabelle
  imports Complex_Main "HOL-Library.Sublist"
begin

section \<open>Text primitives of the Python runtime\<close>

text \<open>
  A Python \<open>str\<close> is modelled as a \<open>string\<close>, each \<open>char\<close> standing for one code
  point in the range U+0000 .. U+00FF.  On that range the whitespace of \<open>str.split()\<close>,
  \<open>str.strip()\<close> and the regular expression class \<open>\s\<close> is the set below, and
  \<open>str.lower()\<close> maps one character to one character.
\<close>

definition is_space :: "char \<Rightarrow> bool" where
  "is_space c \<longleftrightarrow>
     c = CHR 0x09 \<or> c = CHR 0x0A \<or> c = CHR 0x0B \<or> c = CHR 0x0C \<or> c = CHR 0x0D \<or>
     c = CHR 0x1C \<or> c = CHR 0x1D \<or> c = CHR 0x1E \<or> c = CHR 0x1F \<or> c = CHR 0x20 \<or>
     c = CHR 0x85 \<or> c = CHR 0xA0"

definition lower_char :: "char \<Rightarrow> char" where
  "lower_char c =
     (let n = (of_char c :: nat)
      in if (65 \<le> n \<and> n \<le> 90) \<or> (192 \<le> n \<and> n \<le> 222 \<and> n \<noteq> 215)
         then char_of (n + 32) else c)"

definition py_lower :: "string \<Rightarrow> string" where
  "py_lower s = map lower_char s"

definition py_strip :: "string \<Rightarrow> string" where
  "py_strip s = rev (dropWhile is_space (rev (dropWhile is_space s)))"

text \<open>\<open>s.split()\<close>: the maximal runs of non-whitespace characters, in order.\<close>

fun split_ws_from :: "string \<Rightarrow> string \<Rightarrow> string list" where
  "split_ws_from cur [] = (if cur = [] then [] else [cur])"
| "split_ws_from cur (c # cs) =
     (if is_space c
      then (if cur = [] then split_ws_from [] cs else cur # split_ws_from [] cs)
      else split_ws_from (cur @ [c]) cs)"

definition py_split :: "string \<Rightarrow> string list" where
  "py_split s = split_ws_from [] s"

text \<open>\<open>s.split(d)\<close> for a one-character separator: empty pieces are kept.\<close>

fun split_char :: "char \<Rightarrow> string \<Rightarrow> string list" where
  "split_char d [] = [[]]"
| "split_char d (c # cs) =
     (if c = d then [] # split_char d cs
      else (case split_char d cs of
              [] \<Rightarrow> [[c]]
            | w # ws \<Rightarrow> (c # w) # ws))"

text \<open>\<open>sep.join(parts)\<close>.\<close>

fun py_join :: "string \<Rightarrow> string list \<Rightarrow> string" where
  "py_join sep [] = []"
| "py_join sep [p] = p"
| "py_join sep (p # q # ps) = p @ sep @ py_join sep (q # ps)"

text \<open>
  \<open>re.split(r'[...]+', s)\<close> for a character class: the text is cut at every maximal run
  of characters of the class; the pieces before the first and after the last run are kept
  even when empty.
\<close>

function split_runs :: "(char \<Rightarrow> bool) \<Rightarrow> string \<Rightarrow> string list" where
  "split_runs P [] = [[]]"
| "split_runs P (c # cs) =
     (if P c then [] # split_runs P (dropWhile P cs)
      else (case split_runs P cs of
              [] \<Rightarrow> [[c]]
            | w # ws \<Rightarrow> (c # w) # ws))"
  by pat_completeness auto
termination
  by (relation "measure (\<lambda>(P, s). length s)")
     (auto simp: le_imp_less_Suc length_dropWhile_le)

definition is_terminator :: "char \<Rightarrow> bool" where
  "is_terminator c \<longleftrightarrow> c = CHR ''.'' \<or> c = CHR ''!'' \<or> c = CHR ''?''"

definition is_terminator_or_newline :: "char \<Rightarrow> bool" where
  "is_terminator_or_newline c \<longleftrightarrow> is_terminator c \<or> c = CHR 0x0A"

text \<open>
  \<open>re.split(r'(?<=[.!?])\s+', s)\<close>: the text is cut at every maximal run of whitespace
  that directly follows one of \<open>.\<close>, \<open>!\<close>, \<open>?\<close>.  The flag says whether the character
  before the current position is such a terminator.
\<close>

function split_after_terminator :: "bool \<Rightarrow> string \<Rightarrow> string list" where
  "split_after_terminator b [] = [[]]"
| "split_after_terminator b (c # cs) =
     (if b \<and> is_space c then [] # split_after_terminator False (dropWhile is_space cs)
      else (case split_after_terminator (is_terminator c) cs of
              [] \<Rightarrow> [[c]]
            | w # ws \<Rightarrow> (c # w) # ws))"
  by pat_completeness auto
termination
  by (relation "measure (\<lambda>(b, s). length s)")
     (auto simp: le_imp_less_Suc length_dropWhile_le)

definition split_sentences :: "string \<Rightarrow> string list" where
  "split_sentences s = split_after_terminator False s"

section \<open>The completion service\<close>

text \<open>
  \<open>together.Complete.create(...)\<close> followed by \<open>response['choices'][0]['text']\<close> is an
  external call.  It is a parameter of the model: it reads a request and the state of the
  outside world and yields either the text of the completion (\<open>Inr\<close>) or the message of
  the exception raised (\<open>Inl\<close>), together with the next state of the world.
\<close>

record completion_request =
  req_model :: string
  req_prompt :: string
  req_max_tokens :: nat
  req_temperature :: rat
  req_top_p :: "rat option"
  req_repetition_penalty :: "rat option"

type_synonym 'w llm = "completion_request \<Rightarrow> 'w \<Rightarrow> (string + string) \<times> 'w"

record reducer =
  primary_model :: string
  verification_model :: string

definition default_reducer :: reducer where
  "default_reducer =
     \<lparr> primary_model = ''meta-llama/Meta-Llama-3.1-70B-Instruct-Turbo'',
       verification_model = ''meta-llama/Meta-Llama-3.1-8B-Instruct-Turbo'' \<rparr>"

section \<open>Adversarial validation\<close>

record validation_result =
  problems_found :: string
  problem_count :: nat
  reliability_score :: rat
  is_reliable :: bool

definition adversarial_prompt :: "string \<Rightarrow> string \<Rightarrow> string \<Rightarrow> string" where
  "adversarial_prompt document query answer =
     ''You are a critical fact-checker. Your job is to find ANY errors, hallucinations, or unsupported claims in this answer.\<newline>\<newline>Document:\<newline>''
     @ document @ ''\<newline>\<newline>Question: '' @ query
     @ ''\<newline>\<newline>Answer to check:\<newline>'' @ answer
     @ ''\<newline>\<newline>List EVERY problem you find:\<newline>- Incorrect facts\<newline>- Information not in document\<newline>- Misinterpretations\<newline>- Unsupported claims\<newline>\<newline>Problems found:''"

definition problem_lines :: "string \<Rightarrow> string list" where
  "problem_lines problems =
     filter (\<lambda>l. py_strip l \<noteq> [] \<and> \<not> prefix ''None'' (py_strip l))
            (split_char (CHR 0x0A) problems)"

text \<open>
  The scores are Python floats; the model computes them in exact rational arithmetic.
\<close>

definition score_problems :: "string \<Rightarrow> validation_result" where
  "score_problems problems =
     \<lparr> problems_found = problems,
       problem_count = length (problem_lines problems),
       reliability_score = max 0 (1 - of_nat (length (problem_lines problems)) * (2 / 10)),
       is_reliable = (length (problem_lines problems) < 2) \<rparr>"

definition adversarial_request :: "reducer \<Rightarrow> string \<Rightarrow> string \<Rightarrow> string \<Rightarrow> completion_request" where
  "adversarial_request r document query answer =
     \<lparr> req_model = verification_model r,
       req_prompt = adversarial_prompt document query answer,
       req_max_tokens = 400,
       req_temperature = 2 / 10,
       req_top_p = None,
       req_repetition_penalty = None \<rparr>"

text \<open>The call is not guarded: an exception of the service leaves the function.\<close>

definition adversarial_validation ::
  "reducer \<Rightarrow> 'w llm \<Rightarrow> string \<Rightarrow> string \<Rightarrow> string \<Rightarrow> 'w \<Rightarrow> (string + validation_result) \<times> 'w" where
  "adversarial_validation r llm document query answer w =
     (case llm (adversarial_request r document query answer) w of
        (Inl e, w') \<Rightarrow> (Inl e, w')
      | (Inr problems, w') \<Rightarrow> (Inr (score_problems problems), w'))"

text \<open>
  The specification's wording of the problem count, for comparison: the non-empty lines,
  without those that begin with \<open>none\<close>.
\<close>

definition spec_problem_count :: "string \<Rightarrow> nat" where
  "spec_problem_count problems =
     length (filter (\<lambda>l. l \<noteq> [] \<and> \<not> prefix ''none'' l) (split_char (CHR 0x0A) problems))"

section \<open>Chunker\<close>

text \<open>
  \<open>hashlib.md5(chunk_text.encode()).hexdigest()\<close> is a library function; the digest is
  the parameter \<open>md5\<close>, a function from the text to its hexadecimal digest.
\<close>

record chunk =
  chunk_id :: string
  chunk_text :: string
  sentence_range :: "nat \<times> nat"
  word_count :: nat

record chunker_state =
  chunks :: "chunk list"
  current_chunk :: "string list"
  current_length :: nat

definition total_words :: "string list \<Rightarrow> nat" where
  "total_words ss = sum_list (map (\<lambda>s. length (py_split s)) ss)"

text \<open>
  The loop over \<open>reversed(current_chunk)\<close>: a sentence is put in front of the overlap as
  long as the words gathered before it are fewer than \<open>overlap\<close>; the first sentence that
  finds the budget reached ends the loop.
\<close>

fun overlap_loop :: "int \<Rightarrow> string list \<Rightarrow> string list \<Rightarrow> nat \<Rightarrow> string list" where
  "overlap_loop overlap [] overlap_sentences overlap_words = overlap_sentences"
| "overlap_loop overlap (s # rest) overlap_sentences overlap_words =
     (if int overlap_words < overlap
      then overlap_loop overlap rest (s # overlap_sentences)
             (overlap_words + length (py_split s))
      else overlap_sentences)"

definition keep_overlap :: "int \<Rightarrow> string list \<Rightarrow> string list" where
  "keep_overlap overlap cur = overlap_loop overlap (rev cur) [] 0"

definition make_chunk :: "(string \<Rightarrow> string) \<Rightarrow> string list \<Rightarrow> nat \<Rightarrow> nat \<Rightarrow> nat \<Rightarrow> chunk" where
  "make_chunk md5 cur k i len =
     \<lparr> chunk_id = take 8 (md5 (py_join '' '' cur)),
       chunk_text = py_join '' '' cur,
       sentence_range = (k, i),
       word_count = len \<rparr>"

definition chunk_step ::
  "(string \<Rightarrow> string) \<Rightarrow> int \<Rightarrow> int \<Rightarrow> nat \<Rightarrow> string \<Rightarrow> chunker_state \<Rightarrow> chunker_state" where
  "chunk_step md5 chunk_size overlap i sentence st =
     (let sentence_length = length (py_split sentence)
      in if chunk_size < int (current_length st + sentence_length) \<and> current_chunk st \<noteq> []
         then \<lparr> chunks = chunks st @
                   [make_chunk md5 (current_chunk st) (length (chunks st)) i (current_length st)],
                 current_chunk = keep_overlap overlap (current_chunk st) @ [sentence],
                 current_length =
                   total_words (keep_overlap overlap (current_chunk st) @ [sentence]) \<rparr>
         else \<lparr> chunks = chunks st,
                 current_chunk = current_chunk st @ [sentence],
                 current_length = current_length st + sentence_length \<rparr>)"

fun chunk_loop ::
  "(string \<Rightarrow> string) \<Rightarrow> int \<Rightarrow> int \<Rightarrow> nat \<Rightarrow> string list \<Rightarrow> chunker_state \<Rightarrow> chunker_state" where
  "chunk_loop md5 chunk_size overlap i [] st = st"
| "chunk_loop md5 chunk_size overlap i (sentence # rest) st =
     chunk_loop md5 chunk_size overlap (Suc i) rest
       (chunk_step md5 chunk_size overlap i sentence st)"

definition flush :: "(string \<Rightarrow> string) \<Rightarrow> nat \<Rightarrow> chunker_state \<Rightarrow> chunk list" where
  "flush md5 n st =
     (if current_chunk st \<noteq> []
      then chunks st @ [make_chunk md5 (current_chunk st) (length (chunks st)) n (current_length st)]
      else chunks st)"

definition chunk_document_smart :: "(string \<Rightarrow> string) \<Rightarrow> string \<Rightarrow> int \<Rightarrow> int \<Rightarrow> chunk list" where
  "chunk_document_smart md5 text chunk_size overlap =
     (let sentences = split_sentences text
      in flush md5 (length sentences)
           (chunk_loop md5 chunk_size overlap 0 sentences
              \<lparr> chunks = [], current_chunk = [], current_length = 0 \<rparr>))"

text \<open>
  The sentence lists behind the chunks: the same loop, keeping for every chunk the list
  \<open>current_chunk\<close> it was joined from instead of the joined text.
\<close>

fun buffer_loop ::
  "int \<Rightarrow> int \<Rightarrow> string list \<Rightarrow> string list list \<times> string list \<Rightarrow> string list list \<times> string list" where
  "buffer_loop chunk_size overlap [] (bufs, cur) = (bufs, cur)"
| "buffer_loop chunk_size overlap (sentence # rest) (bufs, cur) =
     buffer_loop chunk_size overlap rest
       (if chunk_size < int (total_words cur + length (py_split sentence)) \<and> cur \<noteq> []
        then (bufs @ [cur], keep_overlap overlap cur @ [sentence])
        else (bufs, cur @ [sentence]))"

definition chunk_buffers :: "string \<Rightarrow> int \<Rightarrow> int \<Rightarrow> string list list" where
  "chunk_buffers text chunk_size overlap =
     (case buffer_loop chunk_size overlap (split_sentences text) ([], []) of
        (bufs, cur) \<Rightarrow> if cur \<noteq> [] then bufs @ [cur] else bufs)"

text \<open>
  The shape of a chunk that may exceed the chunk size: the first chunk when it is a single
  sentence, a later chunk when it is the overlap of its predecessor followed by exactly
  one sentence.
\<close>

definition seed_shape :: "int \<Rightarrow> string list list \<Rightarrow> nat \<Rightarrow> bool" where
  "seed_shape overlap bufs k =
     (if k = 0 then length (bufs ! 0) = 1
      else bufs ! k \<noteq> [] \<and> butlast (bufs ! k) = keep_overlap overlap (bufs ! (k - 1)))"

text \<open>A stand-in for the digest in examples: it answers the text itself.\<close>

definition example_md5 :: "string \<Rightarrow> string" where
  "example_md5 s = s"

text \<open>A critic that answers every request with the same four lines.\<close>

definition fixed_critic :: "nat llm" where
  "fixed_critic req w = (Inr ''None\<newline>- wrong date\<newline>\<newline>  None found'', Suc w)"

text \<open>Predicates of the chunker's loop, used to state its invariants.\<close>

definition chunk_ok :: "int \<Rightarrow> int \<Rightarrow> string list list \<Rightarrow> nat \<Rightarrow> bool" where
  "chunk_ok cs ov bufs k \<longleftrightarrow> int (total_words (bufs ! k)) \<le> cs \<or> seed_shape ov bufs k"

definition buffers_inv :: "int \<Rightarrow> int \<Rightarrow> string list list \<times> string list \<Rightarrow> bool" where
  "buffers_inv cs ov g \<longleftrightarrow>
     (case g of (bufs, cur) \<Rightarrow>
        (\<forall>k<length bufs. chunk_ok cs ov bufs k)
      \<and> (\<forall>k<length bufs. bufs ! k \<noteq> [])
      \<and> (bufs \<noteq> [] \<longrightarrow> cur \<noteq> [])
      \<and> (cur \<noteq> [] \<longrightarrow> chunk_ok cs ov (bufs @ [cur]) (length bufs)))"

definition buffers_of :: "chunker_state \<Rightarrow> string list list \<times> string list \<Rightarrow> bool" where
  "buffers_of st g \<longleftrightarrow>
     (case g of (bufs, cur) \<Rightarrow>
        current_chunk st = cur
      \<and> current_length st = total_words cur
      \<and> map chunk_text (chunks st) = map (py_join '' '') bufs
      \<and> map word_count (chunks st) = map total_words bufs)"

section \<open>Claims and their verification\<close>

definition meta_prefixes :: "string list" where
  "meta_prefixes = [''answer:'', ''response:'', ''note:'', ''certainty:'', ''evidence:'']"

definition is_claim :: "string \<Rightarrow> bool" where
  "is_claim s \<longleftrightarrow>
     20 < length s
   \<and> \<not> list_ex (\<lambda>p. prefix p (py_lower s)) meta_prefixes
   \<and> py_lower s \<notin> set [''certain'', ''likely'', ''uncertain'']"

definition extract_claims :: "string \<Rightarrow> string list" where
  "extract_claims text = filter is_claim (map py_strip (split_runs is_terminator text))"

text \<open>
  \<open>Counter(all_claims)\<close>: a dictionary from claim to number of occurrences, as an
  association list in the order of first insertion, which is the order of \<open>items()\<close>.
\<close>

fun counter_add :: "'a \<Rightarrow> ('a \<times> nat) list \<Rightarrow> ('a \<times> nat) list" where
  "counter_add x [] = [(x, 1)]"
| "counter_add x ((k, n) # kvs) =
     (if k = x then (k, Suc n) # kvs else (k, n) # counter_add x kvs)"

definition counter :: "'a list \<Rightarrow> ('a \<times> nat) list" where
  "counter xs = fold counter_add xs []"

definition all_claims_of :: "string list \<Rightarrow> string list" where
  "all_claims_of responses = concat (map extract_claims responses)"

definition consensus_claims_of :: "string list \<Rightarrow> string list" where
  "consensus_claims_of responses =
     map fst (filter (\<lambda>(claim, count). 2 \<le> count) (counter (all_claims_of responses)))"

text \<open>
  \<open>SequenceMatcher(None, a, b).ratio()\<close> of \<open>difflib\<close> is a library function; it is the
  parameter \<open>ratio\<close>.  The overlap ratio is a Python float, here an exact rational.
  \<open>str.lower()\<close> is the parameter \<open>lower\<close>: beyond U+00FF lower-casing depends on the
  context of a letter and is no character-by-character map, so nothing but the calls of
  the source is assumed of it; the pipeline below runs it with \<open>py_lower\<close>.
\<close>

definition verify_claim_in_document ::
  "(string \<Rightarrow> string) \<Rightarrow> (string \<Rightarrow> string \<Rightarrow> rat) \<Rightarrow> string \<Rightarrow> string \<Rightarrow> bool" where
  "verify_claim_in_document lower ratio claim document =
     (let claim_lower = lower claim;
          doc_lower = lower document;
          words = py_split claim_lower
      in if length words < 3 then sublist claim_lower doc_lower
         else
           let claim_words = set words;
               doc_words = set (py_split doc_lower);
               overlap_ratio = rat_of_nat (card (claim_words \<inter> doc_words))
                                 / rat_of_nat (card claim_words)
           in if overlap_ratio < 5 / 10 then False
              else list_ex (\<lambda>sentence. 7 / 10 < ratio claim_lower (py_strip sentence))
                     (split_runs is_terminator_or_newline doc_lower))"

section \<open>Ensemble extraction\<close>

record ensemble_result =
  consensus_answer :: string
  confidence :: rat
  agreement_score :: rat
  all_responses :: "string list"
  verified_claims :: "string list"

definition aggregate_ensemble_responses ::
  "(string \<Rightarrow> string \<Rightarrow> rat) \<Rightarrow> string list \<Rightarrow> string \<Rightarrow> ensemble_result" where
  "aggregate_ensemble_responses ratio responses document =
     (let all_claims = all_claims_of responses;
          consensus_claims = consensus_claims_of responses;
          verified = filter (\<lambda>claim. verify_claim_in_document py_lower ratio claim document)
                       consensus_claims
      in case responses of
           [] \<Rightarrow> \<lparr> consensus_answer = ''Unable to generate response'',
                   confidence = 0,
                   agreement_score = 0,
                   all_responses = [],
                   verified_claims = [] \<rparr>
         | first # _ \<Rightarrow>
             \<lparr> consensus_answer = (if verified \<noteq> [] then py_join '' '' verified else first),
               confidence =
                 (if consensus_claims \<noteq> []
                  then rat_of_nat (length verified) / rat_of_nat (max (length consensus_claims) 1)
                  else 5 / 10),
               agreement_score =
                 (if all_claims \<noteq> []
                  then rat_of_nat (length consensus_claims) / rat_of_nat (max (length all_claims) 1)
                  else 0),
               all_responses = responses,
               verified_claims = verified \<rparr>)"

definition strict_citation_template :: "string \<Rightarrow> string \<Rightarrow> string" where
  "strict_citation_template document query =
     ''You are a precise document analyzer. Extract information following these STRICT rules:\<newline>\<newline>1. Quote EXACTLY from the document - no paraphrasing\<newline>2. If unsure, state \"Uncertain\" and explain why\<newline>3. Never infer beyond what's explicitly written\<newline>\<newline>Document:\<newline>''
     @ document
     @ ''\<newline>\<newline>Question: ''
     @ query
     @ ''\<newline>\<newline>Provide:\<newline>- Direct Answer: [answer with exact quotes in brackets]\<newline>- Evidence Quotes: [list all relevant quotes]\<newline>- Certainty: [Certain/Likely/Uncertain]''"

definition chain_of_thought_template :: "string \<Rightarrow> string \<Rightarrow> string" where
  "chain_of_thought_template document query =
     ''Analyze this document step-by-step:\<newline>\<newline>Document:\<newline>''
     @ document
     @ ''\<newline>\<newline>Question: ''
     @ query
     @ ''\<newline>\<newline>Think through this:\<newline>1. What facts in the document relate to this question?\<newline>2. What do these facts directly state?\<newline>3. What is my answer based ONLY on these facts?\<newline>\<newline>Answer:''"

definition negative_instruction_template :: "string \<Rightarrow> string \<Rightarrow> string" where
  "negative_instruction_template document query =
     ''Answer the question using the document. CRITICAL RULES:\<newline>\<newline>DO NOT add information not in the document\<newline>DO NOT make assumptions\<newline>DO NOT paraphrase - use exact quotes\<newline>DO cite specific text\<newline>DO express uncertainty when appropriate\<newline>\<newline>Document:\<newline>''
     @ document
     @ ''\<newline>\<newline>Question: ''
     @ query
     @ ''\<newline>\<newline>Response:''"

definition fact_extraction_prompt :: "string \<Rightarrow> string \<Rightarrow> string" where
  "fact_extraction_prompt document query =
     ''Extract ONLY the facts from this document that relate to the question.\<newline>List each fact as a separate bullet point with the exact quote.\<newline>\<newline>Document:\<newline>''
     @ document
     @ ''\<newline>\<newline>Question: ''
     @ query
     @ ''\<newline>\<newline>Extracted Facts (with quotes):''"

definition answer_prompt :: "string \<Rightarrow> string \<Rightarrow> string" where
  "answer_prompt extracted_facts query =
     ''Using ONLY these extracted facts, answer the question.\<newline>Do not add any information not in the facts below.\<newline>\<newline>Extracted Facts:\<newline>''
     @ extracted_facts
     @ ''\<newline>\<newline>Question: ''
     @ query
     @ ''\<newline>\<newline>Answer (reference fact numbers):''"

definition prompt_templates :: "(string \<Rightarrow> string \<Rightarrow> string) list" where
  "prompt_templates =
     [strict_citation_template, chain_of_thought_template, negative_instruction_template]"

definition temperatures :: "rat list" where
  "temperatures = [5 / 100, 25 / 100, 15 / 100]"

text \<open>The slice \<open>xs[:n]\<close>; a negative \<open>n\<close> counts from the end.\<close>

definition py_take :: "int \<Rightarrow> 'a list \<Rightarrow> 'a list" where
  "py_take n xs = (if 0 \<le> n then take (nat n) xs else take (length xs - nat (- n)) xs)"

definition ensemble_request ::
  "reducer \<Rightarrow> nat \<Rightarrow> string \<Rightarrow> completion_request" where
  "ensemble_request r i prompt =
     \<lparr> req_model = (if i = 0 then primary_model r else verification_model r),
       req_prompt = prompt,
       req_max_tokens = 600,
       req_temperature = temperatures ! i,
       req_top_p = Some (9 / 10),
       req_repetition_penalty = Some (12 / 10) \<rparr>"

text \<open>
  The loop over \<open>enumerate(prompt_templates[:num_passes])\<close>.  The state is the list of
  responses, the requests sent so far and the world.  Inside the \<open>try\<close>, reading
  \<open>temperatures[i]\<close> beyond the list raises before any request is sent; that exception
  and those of the service skip the pass.
\<close>

fun ensemble_loop ::
  "reducer \<Rightarrow> 'w llm \<Rightarrow> string \<Rightarrow> string \<Rightarrow> nat \<Rightarrow> (string \<Rightarrow> string \<Rightarrow> string) list
     \<Rightarrow> string list \<times> completion_request list \<times> 'w
     \<Rightarrow> string list \<times> completion_request list \<times> 'w" where
  "ensemble_loop r llm document query i [] st = st"
| "ensemble_loop r llm document query i (template # rest) (responses, sent, w) =
     ensemble_loop r llm document query (Suc i) rest
       (if i < length temperatures
        then (case llm (ensemble_request r i (template document query)) w of
                (Inl e, w') \<Rightarrow>
                  (responses, sent @ [ensemble_request r i (template document query)], w')
              | (Inr text, w') \<Rightarrow>
                  (responses @ [text],
                   sent @ [ensemble_request r i (template document query)], w'))
        else (responses, sent, w))"

text \<open>
  The result of \<open>ensemble_extraction\<close>, with the requests it sent and the world after it.
\<close>

definition ensemble_extraction ::
  "reducer \<Rightarrow> 'w llm \<Rightarrow> (string \<Rightarrow> string \<Rightarrow> rat) \<Rightarrow> string \<Rightarrow> string \<Rightarrow> int \<Rightarrow> 'w
     \<Rightarrow> ensemble_result \<times> completion_request list \<times> 'w" where
  "ensemble_extraction r llm ratio document query num_passes w =
     (case ensemble_loop r llm document query 0 (py_take num_passes prompt_templates)
             ([], [], w) of
        (responses, sent, w') \<Rightarrow>
          (aggregate_ensemble_responses ratio responses document, sent, w'))"

section \<open>Fact extraction and validation\<close>

record fact_result =
  extracted_facts :: string
  fact_answer :: string
  validation_score :: rat
  reliable :: bool

definition cross_validate :: "(string \<Rightarrow> string \<Rightarrow> rat) \<Rightarrow> string \<Rightarrow> string \<Rightarrow> rat" where
  "cross_validate ratio answer document =
     (let answer_sentences = split_runs is_terminator answer;
          long_sentences = filter (\<lambda>s. 10 < length (py_strip s)) answer_sentences;
          supported_count =
            length (filter (\<lambda>s. verify_claim_in_document py_lower ratio s document)
                      long_sentences)
      in rat_of_nat supported_count / rat_of_nat (max (length long_sentences) 1))"

definition fact_extraction_request :: "reducer \<Rightarrow> string \<Rightarrow> string \<Rightarrow> completion_request" where
  "fact_extraction_request r document query =
     \<lparr> req_model = primary_model r,
       req_prompt = fact_extraction_prompt document query,
       req_max_tokens = 500,
       req_temperature = 5 / 100,
       req_top_p = None,
       req_repetition_penalty = None \<rparr>"

definition answer_request :: "reducer \<Rightarrow> string \<Rightarrow> string \<Rightarrow> completion_request" where
  "answer_request r facts query =
     \<lparr> req_model = primary_model r,
       req_prompt = answer_prompt facts query,
       req_max_tokens = 400,
       req_temperature = 1 / 10,
       req_top_p = None,
       req_repetition_penalty = None \<rparr>"

definition fact_extraction_validation ::
  "reducer \<Rightarrow> 'w llm \<Rightarrow> (string \<Rightarrow> string \<Rightarrow> rat) \<Rightarrow> string \<Rightarrow> string \<Rightarrow> 'w \<Rightarrow> fact_result \<times> 'w" where
  "fact_extraction_validation r llm ratio document query w =
     (case llm (fact_extraction_request r document query) w of
        (Inl e, w1) \<Rightarrow>
          (\<lparr> extracted_facts = ''Error extracting facts: '' @ e,
             fact_answer = ''Unable to process request'',
             validation_score = 0,
             reliable = False \<rparr>, w1)
      | (Inr facts, w1) \<Rightarrow>
          (case llm (answer_request r facts query) w1 of
             (Inl e, w2) \<Rightarrow>
               (\<lparr> extracted_facts = facts,
                  fact_answer = ''Error generating answer: '' @ e,
                  validation_score = 0,
                  reliable = False \<rparr>, w2)
           | (Inr answer, w2) \<Rightarrow>
               (\<lparr> extracted_facts = facts,
                  fact_answer = answer,
                  validation_score = cross_validate ratio answer document,
                  reliable = (7 / 10 < cross_validate ratio answer document) \<rparr>, w2)))"

section \<open>The orchestrator\<close>

text \<open>
  The body of the request is the parsed JSON: nothing (\<open>None\<close>) or an object, given as
  the list of its fields; the fields \<open>document\<close> and \<open>query\<close>, when present, are JSON
  strings.  The answer is an error with its HTTP status and message, or the analysis.
\<close>

record analysis =
  success :: bool
  final_answer :: string
  answer_confidence :: rat
  answer_reliability_score :: rat
  validation :: validation_result
  fact_validation :: fact_result
  answer_is_reliable :: bool

definition get_field :: "(string \<times> string) list \<Rightarrow> string \<Rightarrow> string" where
  "get_field data key = (case map_of data key of None \<Rightarrow> [] | Some v \<Rightarrow> v)"

definition analyze_advanced ::
  "'w llm \<Rightarrow> (string \<Rightarrow> string \<Rightarrow> rat) \<Rightarrow> (string \<times> string) list option \<Rightarrow> 'w
     \<Rightarrow> (nat \<times> string + analysis) \<times> 'w" where
  "analyze_advanced llm ratio body w =
     (case body of
        None \<Rightarrow> (Inl (400, ''No JSON data provided''), w)
      | Some data \<Rightarrow>
          if data = [] then (Inl (400, ''No JSON data provided''), w)
          else
            let document = py_strip (get_field data ''document'');
                query = py_strip (get_field data ''query'')
            in if document = [] \<or> query = []
               then (Inl (400, ''Document and query required''), w)
               else if 200000 < length document
               then (Inl (400, ''Document too large (max 200,000 characters)''), w)
               else if 1000 < length query
               then (Inl (400, ''Query too long (max 1,000 characters)''), w)
               else
                 (case ensemble_extraction default_reducer llm ratio document query 3 w of
                    (ensemble, sent, w1) \<Rightarrow>
                      (case fact_extraction_validation default_reducer llm ratio document query w1 of
                         (facts, w2) \<Rightarrow>
                           (case adversarial_validation default_reducer llm document query
                                   (consensus_answer ensemble) w2 of
                              (Inl e, w3) \<Rightarrow> (Inl (500, e), w3)
                            | (Inr v, w3) \<Rightarrow>
                                (Inr \<lparr> success = True,
                                       final_answer = (if \<not> is_reliable v then fact_answer facts
                                                       else consensus_answer ensemble),
                                       answer_confidence = confidence ensemble,
                                       answer_reliability_score = reliability_score v,
                                       validation = v,
                                       fact_validation = facts,
                                       answer_is_reliable = (is_reliable v \<and> reliable facts) \<rparr>,
                                 w3)))))"

text \<open>
  The specification's wording of consensus, for comparison: the number of responses in
  which a claim appears.
\<close>

definition responses_with_claim :: "string list \<Rightarrow> string \<Rightarrow> nat" where
  "responses_with_claim responses claim =
     length (filter (\<lambda>response. claim \<in> set (extract_claims response)) responses)"

text \<open>Stand-ins used in examples: a similarity that is always 1, and a few services.\<close>

definition always_similar :: "string \<Rightarrow> string \<Rightarrow> rat" where
  "always_similar a b = 1"

definition never_similar :: "string \<Rightarrow> string \<Rightarrow> rat" where
  "never_similar a b = 0"

definition short_answers :: "nat llm" where
  "short_answers req w = (Inr ''Paris'', Suc w)"

definition critic_down :: "nat llm" where
  "critic_down req w =
     (if req_max_tokens req = 400 \<and> req_model req = verification_model default_reducer
      then Inl ''timeout'' else Inr ''Paris'', Suc w)"

section \<open>Diversified retrieval\<close>

text \<open>
  A match of the vector store: its score (a float, here a rational) and the entries of
  its metadata dictionary that the retriever reads, each of which may be missing.
\<close>

record match =
  match_score :: rat
  match_text :: "string option"
  match_source :: "string option"
  match_domain :: "string option"
  match_user_id :: "string option"
  match_type :: "string option"

record retrieved =
  doc_text :: string
  doc_source :: string
  doc_domain :: string
  doc_score :: rat
  doc_user_id :: "string option"
  doc_type :: string

text \<open>
  Embedding the query and querying an index namespace are external calls: \<open>search\<close>
  takes the query text, the namespace, the number of matches asked for and the metadata
  filter, and yields the matches or the message of the exception raised.
\<close>

type_synonym search = "string \<Rightarrow> string \<Rightarrow> int \<Rightarrow> (string \<times> string) list option \<Rightarrow> string + match list"

text \<open>\<open>xs[n:]\<close>, and the stable \<open>sort(key=score, reverse=True)\<close>.\<close>

definition py_drop :: "int \<Rightarrow> 'a list \<Rightarrow> 'a list" where
  "py_drop n xs = (if 0 \<le> n then drop (nat n) xs else drop (length xs - nat (- n)) xs)"

definition sort_by_score :: "match list \<Rightarrow> match list" where
  "sort_by_score ms = sort_key (\<lambda>m. - match_score m) ms"

definition source_of :: "match \<Rightarrow> string" where
  "source_of m = (case match_source m of None \<Rightarrow> ''unknown'' | Some s \<Rightarrow> s)"

text \<open>The dictionary \<open>by_source\<close>, in insertion order.\<close>

fun group_add :: "string \<Rightarrow> match \<Rightarrow> (string \<times> match list) list \<Rightarrow> (string \<times> match list) list" where
  "group_add src m [] = [(src, [m])]"
| "group_add src m ((k, ms) # rest) =
     (if k = src then (k, ms @ [m]) # rest else (k, ms) # group_add src m rest)"

definition by_source :: "match list \<Rightarrow> (string \<times> match list) list" where
  "by_source matches = fold (\<lambda>m acc. group_add (source_of m) m acc) matches []"

definition diversify :: "int \<Rightarrow> (string \<times> match list) list \<Rightarrow> match list" where
  "diversify top_k groups =
     (if groups = [] then []
      else
        let chunks_per_source = max 1 (top_k div int (length groups));
            remaining_slots = top_k - chunks_per_source * int (length groups);
            first_pass = concat (map (\<lambda>(src, ms). py_take chunks_per_source ms) groups);
            all_remaining = concat (map (\<lambda>(src, ms). py_drop chunks_per_source ms) groups)
        in if 0 < remaining_slots
           then first_pass @ py_take remaining_slots (sort_by_score all_remaining)
           else first_pass)"

definition final_matches :: "int \<Rightarrow> match list \<Rightarrow> match list" where
  "final_matches top_k matches = py_take top_k (sort_by_score (diversify top_k (by_source matches)))"

text \<open>
  The result list.  \<open>match["metadata"]["text"]\<close>, \<open>["source"]\<close> and \<open>["domain"]\<close> raise
  on a missing key, and the handler of the function then returns the empty list.
\<close>

definition to_retrieved :: "match \<Rightarrow> retrieved option" where
  "to_retrieved m =
     (case (match_text m, match_source m, match_domain m) of
        (Some t, Some s, Some d) \<Rightarrow>
          Some \<lparr> doc_text = t, doc_source = s, doc_domain = d, doc_score = match_score m,
                 doc_user_id = match_user_id m,
                 doc_type = (case match_type m of None \<Rightarrow> ''document'' | Some ty \<Rightarrow> ty) \<rparr>
      | _ \<Rightarrow> None)"

definition format_results :: "match list \<Rightarrow> retrieved list" where
  "format_results ms =
     (if list_all (\<lambda>m. to_retrieved m \<noteq> None) ms then map (\<lambda>m. the (to_retrieved m)) ms
      else [])"

definition candidates :: "int \<Rightarrow> match list \<Rightarrow> match list \<Rightarrow> match list" where
  "candidates top_k default_matches report_matches =
     (let retrieval_k = (if top_k < 20 then top_k * 2 else top_k)
      in py_take (retrieval_k * 2) (sort_by_score (default_matches @ report_matches)))"

text \<open>
  The two queries of \<open>retrieve_documents\<close>: the default namespace with the domain and
  user filters, and, when asked for, the \<open>reports\<close> namespace with the domain filter.
\<close>

definition domain_filter :: "string option \<Rightarrow> (string \<times> string) list" where
  "domain_filter domain =
     (case domain of None \<Rightarrow> [] | Some d \<Rightarrow> if d = [] then [] else [(''domain'', d)])"

definition user_filter :: "string option \<Rightarrow> (string \<times> string) list" where
  "user_filter user_id =
     (case user_id of None \<Rightarrow> [] | Some u \<Rightarrow> if u = [] then [] else [(''user_id'', u)])"

definition query_default ::
  "search \<Rightarrow> string \<Rightarrow> string option \<Rightarrow> int \<Rightarrow> string option \<Rightarrow> string + match list" where
  "query_default search query domain top_k user_id =
     (let filter_dict = domain_filter domain @ user_filter user_id;
          retrieval_k = (if top_k < 20 then top_k * 2 else top_k)
      in search query [] retrieval_k (if filter_dict = [] then None else Some filter_dict))"

definition query_reports ::
  "search \<Rightarrow> string \<Rightarrow> string option \<Rightarrow> int \<Rightarrow> bool \<Rightarrow> string + match list" where
  "query_reports search query domain top_k include_reports =
     (let retrieval_k = (if top_k < 20 then top_k * 2 else top_k)
      in if include_reports
         then search query ''reports'' (retrieval_k div 2)
                (if domain_filter domain = [] then None else Some (domain_filter domain))
         else Inr [])"

definition retrieve_documents ::
  "search \<Rightarrow> string \<Rightarrow> string option \<Rightarrow> int \<Rightarrow> string option \<Rightarrow> bool \<Rightarrow> retrieved list" where
  "retrieve_documents search query domain top_k user_id include_reports =
     (case query_default search query domain top_k user_id of
        Inl e \<Rightarrow> []
      | Inr default_matches \<Rightarrow>
          (case query_reports search query domain top_k include_reports of
             Inl e \<Rightarrow> []
           | Inr report_matches \<Rightarrow>
               format_results
                 (final_matches top_k (candidates top_k default_matches report_matches))))"

definition has_metadata :: "match \<Rightarrow> bool" where
  "has_metadata m \<longleftrightarrow> match_text m \<noteq> None \<and> match_source m \<noteq> None \<and> match_domain m \<noteq> None"

definition groups_inv :: "(string \<times> match list) list \<Rightarrow> bool" where
  "groups_inv gs \<longleftrightarrow>
     distinct (map fst gs)
   \<and> (\<forall>(k, ms)\<in>set gs. ms \<noteq> [] \<and> (\<forall>m\<in>set ms. source_of m = k))"

text \<open>An index with three matches of three sources, used in examples.\<close>

definition example_match :: "rat \<Rightarrow> string \<Rightarrow> match" where
  "example_match sc src =
     \<lparr> match_score = sc, match_text = Some ''t'', match_source = Some src,
       match_domain = Some ''travel'', match_user_id = None, match_type = None \<rparr>"

definition example_search :: search where
  "example_search query namespace k flt =
     (if namespace = [] then
        Inr [example_match (9 / 10) ''A'', example_match (8 / 10) ''A'',
             example_match (7 / 10) ''B'', example_match (6 / 10) ''C'']
      else Inr [])"

section \<open>Properties\<close>

subsection \<open>Adversarial scoring\<close>

lemma reliability_score_bounds:
  "0 \<le> reliability_score (score_problems p) \<and> reliability_score (score_problems p) \<le> 1"
  by (simp add: score_problems_def)

text \<open>
  C8, as the code has it: when the critic answers with the text \<open>problems\<close>, the problem
  count is the number of lines (cut at line feeds) that are not blank and whose stripped
  form does not begin with \<open>None\<close> (capital N); the reliability score is
  \<open>max 0 (1 - 0.2 * count)\<close>, which is 1 for no problem, 0 from five problems on and never
  negative; and the answer is reliable exactly when the count is below 2.
\<close>

theorem adversarial_scoring:
  assumes "llm (adversarial_request r document query answer) w = (Inr problems, w')"
  shows "\<exists>v. adversarial_validation r llm document query answer w = (Inr v, w')
           \<and> problems_found v = problems
           \<and> problem_count v =
               length (filter (\<lambda>l. py_strip l \<noteq> [] \<and> \<not> prefix ''None'' (py_strip l))
                              (split_char (CHR 0x0A) problems))
           \<and> reliability_score v = max 0 (1 - (2 / 10) * of_nat (problem_count v))
           \<and> (problem_count v = 0 \<longrightarrow> reliability_score v = 1)
           \<and> (5 \<le> problem_count v \<longrightarrow> reliability_score v = 0)
           \<and> 0 \<le> reliability_score v
           \<and> is_reliable v = (problem_count v < 2)"
proof -
  let ?v = "score_problems problems"
  have run: "adversarial_validation r llm document query answer w = (Inr ?v, w')"
    using assms by (simp add: adversarial_validation_def)
  have five: "5 \<le> problem_count ?v \<longrightarrow> reliability_score ?v = 0"
  proof
    assume "5 \<le> problem_count ?v"
    then have "(5::rat) \<le> of_nat (length (problem_lines problems))"
      by (simp add: score_problems_def)
    then show "reliability_score ?v = 0"
      by (simp add: score_problems_def max_def)
  qed
  have rest: "problems_found ?v = problems"
    "problem_count ?v =
       length (filter (\<lambda>l. py_strip l \<noteq> [] \<and> \<not> prefix ''None'' (py_strip l))
                      (split_char (CHR 0x0A) problems))"
    "reliability_score ?v = max 0 (1 - (2 / 10) * of_nat (problem_count ?v))"
    "problem_count ?v = 0 \<longrightarrow> reliability_score ?v = 1"
    "0 \<le> reliability_score ?v"
    "is_reliable ?v = (problem_count ?v < 2)"
    by (simp_all add: score_problems_def problem_lines_def mult.commute)
  show ?thesis
    by (intro exI[of _ ?v] conjI run five rest)
qed

theorem adversarial_scoring_witness:
  "fixed_critic (adversarial_request default_reducer ''d'' ''q'' ''a'') 0
     = (Inr ''None\<newline>- wrong date\<newline>\<newline>  None found'', 1)
   \<and> (\<exists>v. adversarial_validation default_reducer fixed_critic ''d'' ''q'' ''a'' 0 = (Inr v, 1)
          \<and> problem_count v = 1 \<and> reliability_score v = 8 / 10 \<and> is_reliable v)"
proof -
  have h: "fixed_critic (adversarial_request default_reducer ''d'' ''q'' ''a'') 0
     = (Inr ''None\<newline>- wrong date\<newline>\<newline>  None found'', 1)"
    by (simp add: fixed_critic_def)
  have n: "length (filter (\<lambda>l. py_strip l \<noteq> [] \<and> \<not> prefix ''None'' (py_strip l))
             (split_char (CHR 0x0A) ''None\<newline>- wrong date\<newline>\<newline>  None found'')) = 1"
    by (simp add: py_strip_def is_space_def)
  from adversarial_scoring [where llm = fixed_critic and r = default_reducer
      and document = "''d''" and query = "''q''" and answer = "''a''" and w = 0, OF h] n h
  show ?thesis
    by (auto simp: max_def)
qed

text \<open>
  The line \<open>none\<close> begins with \<open>none\<close>, so the specification's count leaves it out; the
  code looks for \<open>None\<close> and counts it as a problem.
\<close>

theorem adversarial_scoring_counterexample:
  "spec_problem_count ''none'' = 0 \<and> problem_count (score_problems ''none'') = 1"
  by (simp add: spec_problem_count_def score_problems_def problem_lines_def
        py_strip_def is_space_def)

subsection \<open>Chunker: the overlap loop\<close>

lemma total_words_append: "total_words (xs @ ys) = total_words xs + total_words ys"
  by (simp add: total_words_def)

lemma total_words_Cons: "total_words (x # xs) = length (py_split x) + total_words xs"
  by (simp add: total_words_def)

lemma overlap_loop_shape:
  "w = total_words acc \<Longrightarrow>
   \<exists>k\<le>length rest.
      overlap_loop ov rest acc w = rev (take k rest) @ acc
    \<and> (0 < k \<longrightarrow> int (total_words (rev (take (k - 1) rest) @ acc)) < ov)
    \<and> (k < length rest \<longrightarrow> ov \<le> int (total_words (rev (take k rest) @ acc)))"
proof (induction rest arbitrary: acc w)
  case Nil
  then show ?case by simp
next
  case (Cons s rest)
  show ?case
  proof (cases "int w < ov")
    case False
    with Cons.prems show ?thesis
      by (intro exI[of _ 0]) simp
  next
    case True
    have "w + length (py_split s) = total_words (s # acc)"
      using Cons.prems by (simp add: total_words_Cons)
    from Cons.IH [OF this] obtain k where k: "k \<le> length rest"
      "overlap_loop ov rest (s # acc) (w + length (py_split s)) = rev (take k rest) @ s # acc"
      "0 < k \<longrightarrow> int (total_words (rev (take (k - 1) rest) @ s # acc)) < ov"
      "k < length rest \<longrightarrow> ov \<le> int (total_words (rev (take k rest) @ s # acc))"
      by blast
    show ?thesis
    proof (intro exI[of _ "Suc k"] conjI impI)
      show "Suc k \<le> length (s # rest)" using k(1) by simp
      show "overlap_loop ov (s # rest) acc w = rev (take (Suc k) (s # rest)) @ acc"
        using True k(2) by simp
      show "int (total_words (rev (take (Suc k - 1) (s # rest)) @ acc)) < ov"
      proof (cases k)
        case 0
        then show ?thesis using True Cons.prems by simp
      next
        case (Suc j)
        then show ?thesis using k(3) by simp
      qed
      show "ov \<le> int (total_words (rev (take (Suc k) (s # rest)) @ acc))"
        if "Suc k < length (s # rest)"
        using that k(4) by simp
    qed
  qed
qed

lemma keep_overlap_shape:
  "\<exists>k\<le>length cur.
      keep_overlap ov cur = drop (length cur - k) cur
    \<and> (0 < k \<longrightarrow> int (total_words (drop (length cur - (k - 1)) cur)) < ov)
    \<and> (k < length cur \<longrightarrow> ov \<le> int (total_words (drop (length cur - k) cur)))"
proof -
  have "0 = total_words []" by (simp add: total_words_def)
  from overlap_loop_shape [OF this, of "rev cur" ov] obtain k where
    k: "k \<le> length cur"
      "overlap_loop ov (rev cur) [] 0 = rev (take k (rev cur)) @ []"
      "0 < k \<longrightarrow> int (total_words (rev (take (k - 1) (rev cur)) @ [])) < ov"
      "k < length (rev cur) \<longrightarrow> ov \<le> int (total_words (rev (take k (rev cur)) @ []))"
    by auto
  have d: "rev (take j (rev cur)) = drop (length cur - j) cur" for j
    by (simp add: take_rev)
  show ?thesis
    using k by (intro exI[of _ k]) (simp add: keep_overlap_def d)
qed

lemma keep_overlap_suffix: "suffix (keep_overlap ov cur) cur"
  using keep_overlap_shape [of cur ov] by (auto simp: suffix_drop)

lemma keep_overlap_tl:
  assumes "keep_overlap ov cur \<noteq> []"
  shows "int (total_words (tl (keep_overlap ov cur))) < ov"
proof -
  from keep_overlap_shape [of cur ov] obtain k where k: "k \<le> length cur"
    "keep_overlap ov cur = drop (length cur - k) cur"
    "0 < k \<longrightarrow> int (total_words (drop (length cur - (k - 1)) cur)) < ov"
    by blast
  from assms k have pos: "0 < k" by (cases k) auto
  have "tl (drop (length cur - k) cur) = drop (Suc (length cur - k)) cur"
    by (simp add: drop_Suc tl_drop)
  also have "Suc (length cur - k) = length cur - (k - 1)"
    using pos k(1) by simp
  finally show ?thesis using k(2,3) pos by simp
qed

lemma keep_overlap_reached:
  assumes "keep_overlap ov cur \<noteq> cur"
  shows "ov \<le> int (total_words (keep_overlap ov cur))"
proof -
  from keep_overlap_shape [of cur ov] obtain k where k: "k \<le> length cur"
    "keep_overlap ov cur = drop (length cur - k) cur"
    "k < length cur \<longrightarrow> ov \<le> int (total_words (drop (length cur - k) cur))"
    by blast
  from assms k have "k < length cur" by (cases "k = length cur") auto
  with k show ?thesis by simp
qed

lemma total_words_single: "total_words [s] = length (py_split s)"
  by (simp add: total_words_def)

lemmas text_eval = py_split_def is_space_def is_terminator_def split_sentences_def
  total_words_def keep_overlap_def

text \<open>
  C4, as the code has it: when a sentence closes the current chunk, the next chunk starts
  as the overlap followed by that sentence, and the overlap is a suffix of the closed
  chunk's sentences, gathered from the end while the words gathered so far are fewer than
  \<open>overlap\<close>.  So the overlap without its earliest sentence has fewer than \<open>overlap\<close>
  words, and an overlap that is not the whole closed chunk has at least \<open>overlap\<close> words:
  the budget is reached or passed by the earliest sentence, not kept as an upper bound.
\<close>

theorem overlap_budget:
  assumes "chunk_size < int (current_length st + length (py_split sentence))"
    and "current_chunk st \<noteq> []"
  shows "\<exists>ov. current_chunk (chunk_step md5 chunk_size overlap i sentence st) = ov @ [sentence]
           \<and> ov = keep_overlap overlap (current_chunk st)
           \<and> suffix ov (current_chunk st)
           \<and> (ov \<noteq> [] \<longrightarrow> int (total_words (tl ov)) < overlap)
           \<and> (ov \<noteq> current_chunk st \<longrightarrow> overlap \<le> int (total_words ov))"
proof -
  let ?ov = "keep_overlap overlap (current_chunk st)"
  have "current_chunk (chunk_step md5 chunk_size overlap i sentence st) = ?ov @ [sentence]"
    using assms by (simp add: chunk_step_def)
  then show ?thesis
    using keep_overlap_suffix [of overlap "current_chunk st"]
      keep_overlap_tl [of overlap "current_chunk st"]
      keep_overlap_reached [of overlap "current_chunk st"]
    by blast
qed

theorem overlap_budget_witness:
  "(4::int) < int (current_length \<lparr> chunks = [], current_chunk = [''a b c.''], current_length = 3 \<rparr>
                + length (py_split ''d e f.''))
   \<and> current_chunk \<lparr> chunks = [], current_chunk = [''a b c.''], current_length = 3 \<rparr> \<noteq> []
   \<and> current_chunk (chunk_step example_md5 4 5 1 ''d e f.''
        \<lparr> chunks = [], current_chunk = [''a b c.''], current_length = 3 \<rparr>)
      = [''a b c.'', ''d e f.'']"
proof -
  let ?st = "\<lparr> chunks = [], current_chunk = [''a b c.''], current_length = 3 \<rparr>"
  have h1: "(4::int) < int (current_length ?st + length (py_split ''d e f.''))"
    by (simp add: text_eval)
  have h2: "current_chunk ?st \<noteq> []" by simp
  from overlap_budget [OF h1 h2, of example_md5 5 1] h1 h2
  show ?thesis by (auto simp: text_eval)
qed

text \<open>
  With a budget of 2 words the overlap seeded from the closed chunk \<open>a b c.\<close> is that
  sentence, 3 words.
\<close>

theorem overlap_budget_counterexample:
  "current_chunk (chunk_step example_md5 4 2 1 ''d e f.''
        \<lparr> chunks = [], current_chunk = [''a b c.''], current_length = 3 \<rparr>)
      = keep_overlap 2 [''a b c.''] @ [''d e f.'']
   \<and> \<not> int (total_words (keep_overlap 2 [''a b c.''])) \<le> 2"
  by (simp add: chunk_step_def text_eval)

subsection \<open>Chunker: the size of a chunk\<close>

lemma split_ws_from_space_append:
  "is_space sp \<Longrightarrow>
   split_ws_from cur (a @ sp # b) = split_ws_from cur a @ split_ws_from [] b"
  by (induction a arbitrary: cur) auto

lemma py_split_join: "length (py_split (py_join '' '' ss)) = total_words ss"
proof (induction ss rule: induct_list012)
  case 1
  show ?case by (simp add: total_words_def py_split_def)
next
  case (2 p)
  show ?case by (simp add: total_words_def)
next
  case (3 p q ps)
  have sp: "is_space (CHR '' '')" by (simp add: is_space_def)
  have "py_split (py_join '' '' (p # q # ps)) = py_split p @ py_split (py_join '' '' (q # ps))"
    using split_ws_from_space_append [OF sp, of "[]" p "py_join '' '' (q # ps)"]
    by (simp add: py_split_def)
  with 3 show ?case by (simp add: total_words_Cons)
qed

lemma chunk_ok_append:
  "k < length bufs \<Longrightarrow> chunk_ok cs ov (bufs @ ys) k = chunk_ok cs ov bufs k"
  by (cases k) (simp_all add: chunk_ok_def seed_shape_def nth_append)

lemma buffers_inv_step:
  assumes "buffers_inv cs ov (bufs, cur)"
  shows "buffers_inv cs ov
           (if cs < int (total_words cur + length (py_split s)) \<and> cur \<noteq> []
            then (bufs @ [cur], keep_overlap ov cur @ [s])
            else (bufs, cur @ [s]))"
proof (cases "cs < int (total_words cur + length (py_split s)) \<and> cur \<noteq> []")
  case True
  then have ne: "cur \<noteq> []" by simp
  have all: "\<forall>k<length (bufs @ [cur]). chunk_ok cs ov (bufs @ [cur]) k"
  proof (intro allI impI)
    fix k assume "k < length (bufs @ [cur])"
    then consider "k < length bufs" | "k = length bufs" by fastforce
    then show "chunk_ok cs ov (bufs @ [cur]) k"
    proof cases
      case 1
      with assms show ?thesis by (simp add: buffers_inv_def chunk_ok_append)
    next
      case 2
      with assms ne show ?thesis by (simp add: buffers_inv_def)
    qed
  qed
  have nonempty: "\<forall>k<length (bufs @ [cur]). (bufs @ [cur]) ! k \<noteq> []"
    using assms ne by (auto simp: buffers_inv_def nth_append)
  have seed: "chunk_ok cs ov ((bufs @ [cur]) @ [keep_overlap ov cur @ [s]]) (length (bufs @ [cur]))"
    by (simp add: chunk_ok_def seed_shape_def nth_append)
  from True all nonempty seed show ?thesis
    by (simp add: buffers_inv_def)
next
  case False
  have "chunk_ok cs ov (bufs @ [cur @ [s]]) (length bufs)"
  proof (cases "cur = []")
    case True
    with assms have "bufs = []" by (auto simp: buffers_inv_def)
    with True show ?thesis by (simp add: chunk_ok_def seed_shape_def)
  next
    case ne: False
    with False have "int (total_words (cur @ [s])) \<le> cs"
      by (simp add: total_words_append total_words_def)
    then show ?thesis by (simp add: chunk_ok_def)
  qed
  with False assms show ?thesis
    by (auto simp: buffers_inv_def)
qed

lemma buffers_inv_loop:
  "buffers_inv cs ov g \<Longrightarrow> buffers_inv cs ov (buffer_loop cs ov ss g)"
proof (induction ss arbitrary: g)
  case Nil
  then show ?case by (cases g) simp
next
  case (Cons s ss)
  obtain bufs cur where g: "g = (bufs, cur)" by (cases g)
  from Cons.prems have "buffers_inv cs ov
           (if cs < int (total_words cur + length (py_split s)) \<and> cur \<noteq> []
            then (bufs @ [cur], keep_overlap ov cur @ [s])
            else (bufs, cur @ [s]))"
    unfolding g by (rule buffers_inv_step)
  from Cons.IH [OF this] show ?case by (simp add: g)
qed

lemma chunk_buffers_ok:
  "k < length (chunk_buffers text cs ov) \<Longrightarrow> chunk_ok cs ov (chunk_buffers text cs ov) k"
proof -
  assume k: "k < length (chunk_buffers text cs ov)"
  obtain bufs cur where g: "buffer_loop cs ov (split_sentences text) ([], []) = (bufs, cur)"
    by (cases "buffer_loop cs ov (split_sentences text) ([], [])")
  have "buffers_inv cs ov ([], [])" by (simp add: buffers_inv_def)
  then have inv: "buffers_inv cs ov (bufs, cur)"
    using buffers_inv_loop [of cs ov "([], [])" "split_sentences text"] g by simp
  show ?thesis
  proof (cases "cur = []")
    case True
    with k g inv show ?thesis by (simp add: chunk_buffers_def buffers_inv_def)
  next
    case False
    with k g have "k < length bufs \<or> k = length bufs"
      by (auto simp: chunk_buffers_def)
    with False g inv show ?thesis
      by (auto simp: chunk_buffers_def buffers_inv_def chunk_ok_append)
  qed
qed

lemma buffers_of_loop:
  "buffers_of st g \<Longrightarrow>
   buffers_of (chunk_loop md5 cs ov i ss st) (buffer_loop cs ov ss g)"
proof (induction ss arbitrary: st g i)
  case Nil
  then show ?case by (cases g) simp
next
  case (Cons s ss)
  obtain bufs cur where g: "g = (bufs, cur)" by (cases g)
  have "buffers_of (chunk_step md5 cs ov i s st)
          (if cs < int (total_words cur + length (py_split s)) \<and> cur \<noteq> []
           then (bufs @ [cur], keep_overlap ov cur @ [s])
           else (bufs, cur @ [s]))"
    using Cons.prems
    by (simp add: g buffers_of_def chunk_step_def make_chunk_def total_words_append
          total_words_single Let_def)
  from Cons.IH [OF this] show ?case by (simp add: g)
qed

lemma chunks_buffers:
  "map chunk_text (chunk_document_smart md5 text cs ov)
     = map (py_join '' '') (chunk_buffers text cs ov)
   \<and> map word_count (chunk_document_smart md5 text cs ov)
     = map total_words (chunk_buffers text cs ov)"
proof -
  let ?st0 = "\<lparr> chunks = [], current_chunk = [], current_length = 0 \<rparr>"
  obtain bufs cur where g: "buffer_loop cs ov (split_sentences text) ([], []) = (bufs, cur)"
    by (cases "buffer_loop cs ov (split_sentences text) ([], [])")
  have "buffers_of ?st0 ([], [])" by (simp add: buffers_of_def total_words_def)
  from buffers_of_loop [OF this, of md5 cs ov 0 "split_sentences text"] g
  have "buffers_of (chunk_loop md5 cs ov 0 (split_sentences text) ?st0) (bufs, cur)"
    by simp
  then show ?thesis
    by (simp add: chunk_document_smart_def chunk_buffers_def g flush_def buffers_of_def
          make_chunk_def Let_def)
qed

text \<open>
  C6, as the code has it: the chunks are the joined sentence lists of \<open>chunk_buffers\<close>,
  the recorded word count of a chunk is the number of words of its text, and every chunk
  has at most \<open>chunk_size\<close> words unless it is the first chunk and a single sentence, or a
  later chunk made of the overlap of its predecessor followed by exactly one sentence.
\<close>

theorem chunk_size_bound:
  "length (chunk_document_smart md5 text cs ov) = length (chunk_buffers text cs ov)
   \<and> (\<forall>k<length (chunk_document_smart md5 text cs ov).
         chunk_text (chunk_document_smart md5 text cs ov ! k)
           = py_join '' '' (chunk_buffers text cs ov ! k)
       \<and> word_count (chunk_document_smart md5 text cs ov ! k)
           = length (py_split (chunk_text (chunk_document_smart md5 text cs ov ! k)))
       \<and> (int (word_count (chunk_document_smart md5 text cs ov ! k)) \<le> cs
            \<or> seed_shape ov (chunk_buffers text cs ov) k))"
proof -
  let ?cks = "chunk_document_smart md5 text cs ov"
  let ?bufs = "chunk_buffers text cs ov"
  from chunks_buffers [of md5 "text" cs ov]
  have t: "map chunk_text ?cks = map (py_join '' '') ?bufs"
    and w: "map word_count ?cks = map total_words ?bufs" by simp_all
  from t have len: "length ?cks = length ?bufs" by (rule map_eq_imp_length_eq)
  have "chunk_text (?cks ! k) = py_join '' '' (?bufs ! k)
       \<and> word_count (?cks ! k) = length (py_split (chunk_text (?cks ! k)))
       \<and> (int (word_count (?cks ! k)) \<le> cs \<or> seed_shape ov ?bufs k)"
    if k: "k < length ?cks" for k
  proof -
    have tk: "chunk_text (?cks ! k) = py_join '' '' (?bufs ! k)"
      using t k len by (metis nth_map)
    have wk: "word_count (?cks ! k) = total_words (?bufs ! k)"
      using w k len by (metis nth_map)
    have "chunk_ok cs ov ?bufs k" using k len by (simp add: chunk_buffers_ok)
    with tk wk show ?thesis by (simp add: chunk_ok_def py_split_join)
  qed
  with len show ?thesis by blast
qed

theorem chunk_size_bound_witness:
  "(1::nat) < length (chunk_document_smart example_md5 ''a b c. d e f.'' 4 2)
   \<and> word_count (chunk_document_smart example_md5 ''a b c. d e f.'' 4 2 ! 1) = 6
   \<and> seed_shape 2 (chunk_buffers ''a b c. d e f.'' 4 2) 1"
proof -
  have e: "chunk_document_smart example_md5 ''a b c. d e f.'' 4 2 =
     [\<lparr> chunk_id = ''a b c.'', chunk_text = ''a b c.'', sentence_range = (0, 1), word_count = 3 \<rparr>,
      \<lparr> chunk_id = ''a b c. d'', chunk_text = ''a b c. d e f.'', sentence_range = (1, 2),
        word_count = 6 \<rparr>]"
    by (simp add: chunk_document_smart_def flush_def chunk_step_def make_chunk_def example_md5_def
        text_eval)
  have k: "(1::nat) < length (chunk_document_smart example_md5 ''a b c. d e f.'' 4 2)"
    by (simp add: e)
  from chunk_size_bound [of example_md5 "''a b c. d e f.''" 4 2] k
  have "int (word_count (chunk_document_smart example_md5 ''a b c. d e f.'' 4 2 ! 1)) \<le> 4
            \<or> seed_shape 2 (chunk_buffers ''a b c. d e f.'' 4 2) 1"
    by blast
  with k show ?thesis by (simp add: e)
qed

text \<open>
  Two sentences of 3 words, a chunk size of 4 and an overlap of 2: the second chunk holds
  both sentences, 6 words.
\<close>

theorem chunk_size_bound_counterexample:
  "split_sentences ''a b c. d e f.'' = [''a b c.'', ''d e f.'']
   \<and> length (py_split ''a b c.'') = 3 \<and> length (py_split ''d e f.'') = 3
   \<and> chunk_document_smart example_md5 ''a b c. d e f.'' 4 2 =
     [\<lparr> chunk_id = ''a b c.'', chunk_text = ''a b c.'', sentence_range = (0, 1), word_count = 3 \<rparr>,
      \<lparr> chunk_id = ''a b c. d'', chunk_text = ''a b c. d e f.'', sentence_range = (1, 2),
        word_count = 6 \<rparr>]"
  by (simp add: chunk_document_smart_def flush_def chunk_step_def make_chunk_def example_md5_def
        text_eval)

subsection \<open>Chunker: chunk ids\<close>

lemma chunk_ids_loop:
  "\<forall>c\<in>set (chunks st). chunk_id c = take 8 (md5 (chunk_text c)) \<Longrightarrow>
   \<forall>c\<in>set (chunks (chunk_loop md5 cs ov i ss st)). chunk_id c = take 8 (md5 (chunk_text c))"
proof (induction ss arbitrary: st i)
  case Nil
  then show ?case by simp
next
  case (Cons s ss)
  have "\<forall>c\<in>set (chunks (chunk_step md5 cs ov i s st)). chunk_id c = take 8 (md5 (chunk_text c))"
    using Cons.prems by (auto simp: chunk_step_def make_chunk_def Let_def)
  from Cons.IH [OF this] show ?case by simp
qed

lemma chunk_ids:
  "map chunk_id (chunk_document_smart md5 text cs ov)
     = map (\<lambda>c. take 8 (md5 (chunk_text c))) (chunk_document_smart md5 text cs ov)"
proof -
  let ?st0 = "\<lparr> chunks = [], current_chunk = [], current_length = 0 \<rparr>"
  have "\<forall>c\<in>set (chunks ?st0). chunk_id c = take 8 (md5 (chunk_text c))" by simp
  from chunk_ids_loop [OF this, of cs ov 0 "split_sentences text"]
  have "\<forall>c\<in>set (chunk_document_smart md5 text cs ov). chunk_id c = take 8 (md5 (chunk_text c))"
    by (auto simp: chunk_document_smart_def flush_def make_chunk_def Let_def)
  then show ?thesis by simp
qed

text \<open>
  C9: the id of every chunk is the first 8 characters of the digest of its text, so chunks
  of equal text have equal ids, in the same run or in two runs, whatever the positions and
  parameters; two runs on the same text and parameters are the same chunk sequence.
\<close>

theorem chunk_ids_deterministic:
  assumes "c1 \<in> set (chunk_document_smart md5 text1 cs1 ov1)"
    and "c2 \<in> set (chunk_document_smart md5 text2 cs2 ov2)"
    and "chunk_text c1 = chunk_text c2"
  shows "chunk_id c1 = take 8 (md5 (chunk_text c1)) \<and> chunk_id c2 = chunk_id c1"
proof -
  have "chunk_id c = take 8 (md5 (chunk_text c))"
    if "c \<in> set (chunk_document_smart md5 t cs ov)" for c t cs ov
  proof -
    from that obtain k where k: "k < length (chunk_document_smart md5 t cs ov)"
      "chunk_document_smart md5 t cs ov ! k = c"
      by (auto simp: in_set_conv_nth)
    from chunk_ids [of md5 t cs ov] k(1)
    have "map chunk_id (chunk_document_smart md5 t cs ov) ! k
          = map (\<lambda>c. take 8 (md5 (chunk_text c))) (chunk_document_smart md5 t cs ov) ! k"
      by simp
    with k show ?thesis by simp
  qed
  with assms show ?thesis by metis
qed

theorem chunk_ids_deterministic_witness:
  "\<lparr> chunk_id = ''a b c.'', chunk_text = ''a b c.'', sentence_range = (0, 1), word_count = 3 \<rparr>
     \<in> set (chunk_document_smart example_md5 ''a b c. d e f.'' 4 2)
   \<and> \<lparr> chunk_id = ''a b c.'', chunk_text = ''a b c.'', sentence_range = (1, 2), word_count = 3 \<rparr>
     \<in> set (chunk_document_smart example_md5 ''x. a b c.'' 3 0)
   \<and> chunk_id \<lparr> chunk_id = ''a b c.'', chunk_text = ''a b c.'', sentence_range = (1, 2),
         word_count = 3 \<rparr> = take 8 (example_md5 ''a b c.'')"
proof -
  let ?c1 = "\<lparr> chunk_id = ''a b c.'', chunk_text = ''a b c.'', sentence_range = (0, 1),
               word_count = 3 \<rparr>"
  let ?c2 = "\<lparr> chunk_id = ''a b c.'', chunk_text = ''a b c.'', sentence_range = (1, 2),
               word_count = 3 \<rparr>"
  have h1: "?c1 \<in> set (chunk_document_smart example_md5 ''a b c. d e f.'' 4 2)"
    by (simp add: chunk_document_smart_def flush_def chunk_step_def make_chunk_def
          example_md5_def text_eval)
  have h2: "?c2 \<in> set (chunk_document_smart example_md5 ''x. a b c.'' 3 0)"
    by (simp add: chunk_document_smart_def flush_def chunk_step_def make_chunk_def
          example_md5_def text_eval)
  have h3: "chunk_text ?c1 = chunk_text ?c2" by simp
  from chunk_ids_deterministic [OF h1 h2 h3] h1 h2 show ?thesis by simp
qed

subsection \<open>Claim verification\<close>

lemma overlap_below_half:
  assumes "0 < b"
  shows "rat_of_nat a / rat_of_nat b < 5 / 10 \<longleftrightarrow> 2 * a < b"
proof -
  have "rat_of_nat a / rat_of_nat b < 5 / 10 \<longleftrightarrow> rat_of_nat a * 2 < rat_of_nat b"
    using assms by (simp add: divide_less_eq)
  also have "\<dots> \<longleftrightarrow> rat_of_nat (2 * a) < rat_of_nat b"
    by (simp add: mult.commute)
  also have "\<dots> \<longleftrightarrow> 2 * a < b"
    by (simp only: of_nat_less_iff)
  finally show ?thesis .
qed

text \<open>
  C2, as the code has it, for any lower-casing function: a claim of fewer than three words
  is verified exactly when its lower-case form is a substring of the lower-case document;
  a claim of three or more words is verified exactly when at least half of its distinct
  lower-case words are words of the lower-case document and some sentence of the
  lower-case document, stripped, has a similarity above 0.7 to the lower-case claim; so a
  claim of three or more words that shares no lower-case word with the document is never
  verified.
\<close>

theorem claim_verification:
  "(length (py_split (lower claim)) < 3 \<longrightarrow>
      verify_claim_in_document lower ratio claim document
        = sublist (lower claim) (lower document))
   \<and> (3 \<le> length (py_split (lower claim)) \<longrightarrow>
      verify_claim_in_document lower ratio claim document
        = (card (set (py_split (lower claim)))
             \<le> 2 * card (set (py_split (lower claim)) \<inter> set (py_split (lower document)))
           \<and> (\<exists>sentence\<in>set (split_runs is_terminator_or_newline (lower document)).
                 7 / 10 < ratio (lower claim) (py_strip sentence))))
   \<and> (3 \<le> length (py_split (lower claim))
        \<and> set (py_split (lower claim)) \<inter> set (py_split (lower document)) = {} \<longrightarrow>
        \<not> verify_claim_in_document lower ratio claim document)"
proof (intro conjI impI)
  assume "length (py_split (lower claim)) < 3"
  then show "verify_claim_in_document lower ratio claim document
        = sublist (lower claim) (lower document)"
    by (simp add: verify_claim_in_document_def Let_def)
next
  assume long: "3 \<le> length (py_split (lower claim))"
  let ?cw = "set (py_split (lower claim))"
  let ?dw = "set (py_split (lower document))"
  from long have "py_split (lower claim) \<noteq> []" by auto
  then have "0 < card ?cw" by (simp add: card_gt_0_iff)
  from overlap_below_half [OF this, of "card (?cw \<inter> ?dw)"]
  have half: "rat_of_nat (card (?cw \<inter> ?dw)) / rat_of_nat (card ?cw) < 5 / 10
                \<longleftrightarrow> 2 * card (?cw \<inter> ?dw) < card ?cw" .
  from long have "\<not> length (py_split (lower claim)) < 3" by simp
  then show "verify_claim_in_document lower ratio claim document
        = (card ?cw \<le> 2 * card (?cw \<inter> ?dw)
           \<and> (\<exists>sentence\<in>set (split_runs is_terminator_or_newline (lower document)).
                 7 / 10 < ratio (lower claim) (py_strip sentence)))"
    unfolding verify_claim_in_document_def Let_def half
    by (auto simp: list_ex_iff)
next
  assume a: "3 \<le> length (py_split (lower claim))
        \<and> set (py_split (lower claim)) \<inter> set (py_split (lower document)) = {}"
  then show "\<not> verify_claim_in_document lower ratio claim document"
    by (simp add: verify_claim_in_document_def Let_def)
qed

theorem claim_verification_witness:
  "length (py_split (py_lower ''Eiffel Tower'')) < 3
   \<and> verify_claim_in_document py_lower always_similar ''Eiffel Tower'' ''The Eiffel Tower.''
   \<and> 3 \<le> length (py_split (py_lower ''the Eiffel Tower''))
   \<and> verify_claim_in_document py_lower always_similar ''the Eiffel Tower'' ''The Eiffel Tower.''
   \<and> \<not> verify_claim_in_document py_lower never_similar ''the Eiffel Tower'' ''The Eiffel Tower.''
   \<and> 3 \<le> length (py_split (py_lower ''Rome is old''))
   \<and> set (py_split (py_lower ''Rome is old''))
        \<inter> set (py_split (py_lower ''The Eiffel Tower.'')) = {}
   \<and> \<not> verify_claim_in_document py_lower always_similar ''Rome is old'' ''The Eiffel Tower.''"
proof -
  have low: "py_lower ''Eiffel Tower'' = ''eiffel tower''"
    "py_lower ''the Eiffel Tower'' = ''the eiffel tower''"
    "py_lower ''The Eiffel Tower.'' = ''the eiffel tower.''"
    "py_lower ''Rome is old'' = ''rome is old''"
    by code_simp+
  have h1: "length (py_split (py_lower ''Eiffel Tower'')) < 3"
    by (simp add: low text_eval)
  have s1: "sublist (py_lower ''Eiffel Tower'') (py_lower ''The Eiffel Tower.'')"
    by (simp add: low sublist_code)
  have h2: "3 \<le> length (py_split (py_lower ''the Eiffel Tower''))"
    by (simp add: low text_eval)
  have o2: "card (set (py_split (py_lower ''the Eiffel Tower'')))
              \<le> 2 * card (set (py_split (py_lower ''the Eiffel Tower''))
                            \<inter> set (py_split (py_lower ''The Eiffel Tower.'')))"
    by (simp add: low text_eval card_insert_if)
  have d2: "split_runs is_terminator_or_newline (py_lower ''The Eiffel Tower.'')
              = [''the eiffel tower'', []]"
    by (simp add: low is_terminator_or_newline_def is_terminator_def)
  have h3: "3 \<le> length (py_split (py_lower ''Rome is old''))
   \<and> set (py_split (py_lower ''Rome is old''))
        \<inter> set (py_split (py_lower ''The Eiffel Tower.'')) = {}"
    by (simp add: low text_eval)
  from claim_verification [of py_lower "''Eiffel Tower''" always_similar "''The Eiffel Tower.''"] h1 s1
  have r1: "verify_claim_in_document py_lower always_similar ''Eiffel Tower''
              ''The Eiffel Tower.''"
    by blast
  from claim_verification [of py_lower "''the Eiffel Tower''" always_similar "''The Eiffel Tower.''"] h2 o2
  have r2: "verify_claim_in_document py_lower always_similar ''the Eiffel Tower''
              ''The Eiffel Tower.''"
    by (auto simp: d2 always_similar_def)
  from claim_verification [of py_lower "''the Eiffel Tower''" never_similar "''The Eiffel Tower.''"] h2
  have r3: "\<not> verify_claim_in_document py_lower never_similar ''the Eiffel Tower''
              ''The Eiffel Tower.''"
    by (auto simp: d2 never_similar_def)
  from claim_verification [of py_lower "''Rome is old''" always_similar "''The Eiffel Tower.''"] h3
  have r4: "\<not> verify_claim_in_document py_lower always_similar ''Rome is old''
              ''The Eiffel Tower.''"
    by blast
  from h1 h2 h3 r1 r2 r3 r4 show ?thesis by blast
qed

text \<open>
  A claim of three words that occurs verbatim in the document but shares only one of its
  words with it is rejected, even by a similarity that accepts everything; and a claim of
  one word that is no word of the document but a substring of it is verified.
\<close>

theorem claim_verification_counterexample:
  "sublist ''abc def ghi'' ''xabc def ghiy zzz''
   \<and> \<not> verify_claim_in_document py_lower always_similar ''abc def ghi'' ''xabc def ghiy zzz''
   \<and> set (py_split ''ab'') \<inter> set (py_split ''cabd'') = {}
   \<and> verify_claim_in_document py_lower always_similar ''ab'' ''cabd''"
  by (simp add: verify_claim_in_document_def py_lower_def lower_char_def sublist_code
        text_eval card_insert_if)

subsection \<open>Consensus\<close>

text \<open>
  What the code computes: a claim is a consensus claim exactly when it occurs at least
  twice in the concatenation of the claims of all responses.
\<close>

lemma counter_add_keys: "fst ` set (counter_add x kvs) = insert x (fst ` set kvs)"
  by (induction x kvs rule: counter_add.induct) auto

lemma counter_add_distinct: "distinct (map fst kvs) \<Longrightarrow> distinct (map fst (counter_add x kvs))"
proof (induction x kvs rule: counter_add.induct)
  case (1 x)
  then show ?case by simp
next
  case (2 x k n kvs)
  then show ?case
    using counter_add_keys [of x kvs] by (auto simp del: counter_add.simps(2) simp: counter_add.simps(2))
qed

lemma counter_add_lookup:
  "distinct (map fst kvs) \<Longrightarrow>
   map_of (counter_add x kvs) y =
     (if y = x then Some (case map_of kvs x of None \<Rightarrow> 1 | Some n \<Rightarrow> Suc n) else map_of kvs y)"
  by (induction x kvs rule: counter_add.induct) (auto simp: map_of_eq_None_iff)

lemma fold_counter_add:
  "distinct (map fst kvs) \<Longrightarrow>
   distinct (map fst (fold counter_add xs kvs))
   \<and> (\<forall>y. map_of (fold counter_add xs kvs) y =
         (if y \<in> set xs \<or> y \<in> fst ` set kvs
          then Some (count_list xs y + (case map_of kvs y of None \<Rightarrow> 0 | Some n \<Rightarrow> n))
          else None))"
proof (induction xs arbitrary: kvs)
  case Nil
  then show ?case
    by (auto simp: map_of_eq_None_iff split: option.splits)
next
  case (Cons x xs)
  from Cons.IH [OF counter_add_distinct [OF Cons.prems, of x]] Cons.prems
  show ?case
    by (auto simp: counter_add_lookup counter_add_keys split: option.splits)
qed

lemma consensus_iff:
  "c \<in> set (consensus_claims_of responses) \<longleftrightarrow> 2 \<le> count_list (all_claims_of responses) c"
proof -
  let ?xs = "all_claims_of responses"
  from fold_counter_add [of "[]" ?xs]
  have d: "distinct (map fst (counter ?xs))"
    and m: "\<And>y. map_of (counter ?xs) y = (if y \<in> set ?xs then Some (count_list ?xs y) else None)"
    by (simp_all add: counter_def)
  have "c \<in> set (consensus_claims_of responses) \<longleftrightarrow> (\<exists>n. (c, n) \<in> set (counter ?xs) \<and> 2 \<le> n)"
    by (force simp: consensus_claims_of_def)
  also have "\<dots> \<longleftrightarrow> (\<exists>n. map_of (counter ?xs) c = Some n \<and> 2 \<le> n)"
    using d by auto
  also have "\<dots> \<longleftrightarrow> 2 \<le> count_list ?xs c"
    by (auto simp: m count_list_0_iff)
  finally show ?thesis .
qed

text \<open>
  C5 at a single response that states one sentence twice: the sentence is a consensus
  claim, although only one response contains it.
\<close>

theorem consensus_counts_repeats:
  "consensus_claims_of
     [''The sky is certainly very blue today. The sky is certainly very blue today.'']
     = [''The sky is certainly very blue today'']
   \<and> responses_with_claim
       [''The sky is certainly very blue today. The sky is certainly very blue today.'']
       ''The sky is certainly very blue today'' = 1"
  by (simp add: consensus_claims_of_def all_claims_of_def counter_def extract_claims_def
        is_claim_def meta_prefixes_def py_strip_def py_lower_def lower_char_def
        responses_with_claim_def text_eval)

subsection \<open>The passes of the ensemble\<close>

lemma py_take_all: "int (length xs) \<le> n \<Longrightarrow> py_take n xs = xs"
  by (simp add: py_take_def)

lemma ensemble_loop_sent:
  "length ts + i \<le> length temperatures \<Longrightarrow>
   length (fst (snd (ensemble_loop r llm d q i ts (responses, sent, w))))
     = length sent + length ts"
proof (induction ts arbitrary: i responses sent w)
  case Nil
  then show ?case by simp
next
  case (Cons t ts)
  then have i: "i < length temperatures" and rest: "length ts + Suc i \<le> length temperatures"
    by simp_all
  show ?case
  proof (cases "llm (ensemble_request r i (t d q)) w")
    case (Pair res w')
    then show ?thesis
      using i Cons.IH [OF rest] by (cases res) simp_all
  qed
qed

text \<open>
  C10: with more than three passes asked for, the ensemble sends exactly three requests,
  one for each template, and returns the result, the requests and the world of a run with
  three passes.
\<close>

theorem ensemble_pass_cap:
  assumes "3 < num_passes"
  shows "ensemble_extraction r llm ratio document query num_passes w
           = ensemble_extraction r llm ratio document query 3 w
         \<and> length (fst (snd (ensemble_extraction r llm ratio document query num_passes w))) = 3"
proof -
  have t: "py_take num_passes prompt_templates = prompt_templates"
    using assms by (intro py_take_all) (simp add: prompt_templates_def)
  have t3: "py_take 3 prompt_templates = prompt_templates"
    by (intro py_take_all) (simp add: prompt_templates_def)
  have "length (fst (snd (ensemble_loop r llm document query 0 prompt_templates ([], [], w))))
          = length ([] :: completion_request list) + length prompt_templates"
    by (rule ensemble_loop_sent) (simp add: prompt_templates_def temperatures_def)
  then have "length (fst (snd (ensemble_loop r llm document query 0 prompt_templates ([], [], w)))) = 3"
    by (simp add: prompt_templates_def)
  then show ?thesis
    by (auto simp: ensemble_extraction_def t t3 split: prod.splits)
qed

theorem ensemble_pass_cap_witness:
  "(3::int) < 7
   \<and> ensemble_extraction default_reducer short_answers always_similar ''d'' ''q'' 7 0
     = ensemble_extraction default_reducer short_answers always_similar ''d'' ''q'' 3 0
   \<and> length (fst (snd (ensemble_extraction default_reducer short_answers always_similar
                          ''d'' ''q'' 7 0))) = 3"
proof -
  have h: "(3::int) < 7" by simp
  from ensemble_pass_cap [OF h, of default_reducer short_answers always_similar "''d''" "''q''" 0] h
  show ?thesis by blast
qed

subsection \<open>The orchestrator\<close>

lemmas pipeline_eval = analyze_advanced_def get_field_def py_strip_def
  ensemble_extraction_def py_take_def prompt_templates_def temperatures_def
  ensemble_request_def aggregate_ensemble_responses_def all_claims_of_def
  consensus_claims_of_def counter_def extract_claims_def is_claim_def
  fact_extraction_validation_def fact_extraction_request_def answer_request_def
  cross_validate_def adversarial_validation_def adversarial_request_def
  score_problems_def problem_lines_def default_reducer_def

text \<open>
  C3: when the pipeline answers with an analysis, the ensemble, the fact validator and the
  adversarial check have run in this order on the stripped document and query; the final
  answer is the ensemble's consensus answer when the adversarial check is reliable and the
  fact validator's answer otherwise, and the overall reliability is the conjunction of the
  adversarial check's and the fact validator's.
\<close>

theorem reconciliation:
  assumes "analyze_advanced llm ratio body w = (Inr resp, w')"
  shows "\<exists>data ensemble sent w1 facts w2 v.
           body = Some data
         \<and> ensemble_extraction default_reducer llm ratio
               (py_strip (get_field data ''document'')) (py_strip (get_field data ''query'')) 3 w
             = (ensemble, sent, w1)
         \<and> fact_extraction_validation default_reducer llm ratio
               (py_strip (get_field data ''document'')) (py_strip (get_field data ''query'')) w1
             = (facts, w2)
         \<and> adversarial_validation default_reducer llm
               (py_strip (get_field data ''document'')) (py_strip (get_field data ''query''))
               (consensus_answer ensemble) w2
             = (Inr v, w')
         \<and> final_answer resp
             = (if is_reliable v then consensus_answer ensemble else fact_answer facts)
         \<and> answer_is_reliable resp = (is_reliable v \<and> reliable facts)
         \<and> validation resp = v \<and> fact_validation resp = facts \<and> success resp"
  using assms
  by (auto simp: analyze_advanced_def Let_def
        split: option.splits if_splits prod.splits sum.splits)

theorem reconciliation_witness:
  "analyze_advanced short_answers always_similar
     (Some [(''document'', ''Paris is the capital.''), (''query'', ''Capital?'')]) 0
   = (Inr \<lparr> success = True, final_answer = ''Paris'', answer_confidence = 1 / 2,
            answer_reliability_score = 4 / 5,
            validation = \<lparr> problems_found = ''Paris'', problem_count = 1,
                           reliability_score = 4 / 5, is_reliable = True \<rparr>,
            fact_validation = \<lparr> extracted_facts = ''Paris'', fact_answer = ''Paris'',
                                validation_score = 0, reliable = False \<rparr>,
            answer_is_reliable = False \<rparr>, 6)
   \<and> (\<exists>data ensemble sent w1 facts w2 v.
           (Some [(''document'', ''Paris is the capital.''), (''query'', ''Capital?'')]) = Some data
         \<and> ensemble_extraction default_reducer short_answers always_similar
               (py_strip (get_field data ''document'')) (py_strip (get_field data ''query'')) 3 0
             = (ensemble, sent, w1)
         \<and> fact_extraction_validation default_reducer short_answers always_similar
               (py_strip (get_field data ''document'')) (py_strip (get_field data ''query'')) w1
             = (facts, w2)
         \<and> adversarial_validation default_reducer short_answers
               (py_strip (get_field data ''document'')) (py_strip (get_field data ''query''))
               (consensus_answer ensemble) w2
             = (Inr v, 6)
         \<and> final_answer (\<lparr> success = True, final_answer = ''Paris'', answer_confidence = 1 / 2,
            answer_reliability_score = 4 / 5,
            validation = \<lparr> problems_found = ''Paris'', problem_count = 1,
                           reliability_score = 4 / 5, is_reliable = True \<rparr>,
            fact_validation = \<lparr> extracted_facts = ''Paris'', fact_answer = ''Paris'',
                                validation_score = 0, reliable = False \<rparr>,
            answer_is_reliable = False \<rparr>)
             = (if is_reliable v then consensus_answer ensemble else fact_answer facts)
         \<and> answer_is_reliable (\<lparr> success = True, final_answer = ''Paris'', answer_confidence = 1 / 2,
            answer_reliability_score = 4 / 5,
            validation = \<lparr> problems_found = ''Paris'', problem_count = 1,
                           reliability_score = 4 / 5, is_reliable = True \<rparr>,
            fact_validation = \<lparr> extracted_facts = ''Paris'', fact_answer = ''Paris'',
                                validation_score = 0, reliable = False \<rparr>,
            answer_is_reliable = False \<rparr>) = (is_reliable v \<and> reliable facts)
         \<and> validation (\<lparr> success = True, final_answer = ''Paris'', answer_confidence = 1 / 2,
            answer_reliability_score = 4 / 5,
            validation = \<lparr> problems_found = ''Paris'', problem_count = 1,
                           reliability_score = 4 / 5, is_reliable = True \<rparr>,
            fact_validation = \<lparr> extracted_facts = ''Paris'', fact_answer = ''Paris'',
                                validation_score = 0, reliable = False \<rparr>,
            answer_is_reliable = False \<rparr>) = v \<and> fact_validation (\<lparr> success = True, final_answer = ''Paris'', answer_confidence = 1 / 2,
            answer_reliability_score = 4 / 5,
            validation = \<lparr> problems_found = ''Paris'', problem_count = 1,
                           reliability_score = 4 / 5, is_reliable = True \<rparr>,
            fact_validation = \<lparr> extracted_facts = ''Paris'', fact_answer = ''Paris'',
                                validation_score = 0, reliable = False \<rparr>,
            answer_is_reliable = False \<rparr>) = facts \<and> success (\<lparr> success = True, final_answer = ''Paris'', answer_confidence = 1 / 2,
            answer_reliability_score = 4 / 5,
            validation = \<lparr> problems_found = ''Paris'', problem_count = 1,
                           reliability_score = 4 / 5, is_reliable = True \<rparr>,
            fact_validation = \<lparr> extracted_facts = ''Paris'', fact_answer = ''Paris'',
                                validation_score = 0, reliable = False \<rparr>,
            answer_is_reliable = False \<rparr>))"
proof -
  have h: "analyze_advanced short_answers always_similar
     (Some [(''document'', ''Paris is the capital.''), (''query'', ''Capital?'')]) 0
   = (Inr \<lparr> success = True, final_answer = ''Paris'', answer_confidence = 1 / 2,
            answer_reliability_score = 4 / 5,
            validation = \<lparr> problems_found = ''Paris'', problem_count = 1,
                           reliability_score = 4 / 5, is_reliable = True \<rparr>,
            fact_validation = \<lparr> extracted_facts = ''Paris'', fact_answer = ''Paris'',
                                validation_score = 0, reliable = False \<rparr>,
            answer_is_reliable = False \<rparr>, 6)"
    by (simp add: pipeline_eval short_answers_def text_eval)
  show ?thesis
    by (rule conjI [OF h reconciliation [OF h]])
qed

lemma fact_stage_failure:
  assumes "llm (fact_extraction_request r document query) w = (Inl e, w')"
  shows "fact_extraction_validation r llm ratio document query w =
           (\<lparr> extracted_facts = ''Error extracting facts: '' @ e,
              fact_answer = ''Unable to process request'',
              validation_score = 0,
              reliable = False \<rparr>, w')"
  using assms by (simp add: fact_extraction_validation_def)

lemma adversarial_failure_aborts:
  assumes "body = Some data" "data \<noteq> []"
    and "py_strip (get_field data ''document'') = document" "document \<noteq> []"
      "length document \<le> 200000"
    and "py_strip (get_field data ''query'') = query" "query \<noteq> []" "length query \<le> 1000"
    and "ensemble_extraction default_reducer llm ratio document query 3 w = (ensemble, sent, w1)"
    and "fact_extraction_validation default_reducer llm ratio document query w1 = (facts, w2)"
    and "llm (adversarial_request default_reducer document query (consensus_answer ensemble)) w2
           = (Inl e, w3)"
  shows "analyze_advanced llm ratio body w = (Inl (500, e), w3)"
  using assms
  by (simp add: analyze_advanced_def Let_def adversarial_validation_def)

text \<open>
  C7 at a request that passes the input checks, with a service that answers every request
  but the critic's, which times out: the orchestrator answers with the error 500 and the
  message of the exception, and no answer.
\<close>

theorem critic_failure_is_error:
  "analyze_advanced critic_down always_similar
     (Some [(''document'', ''Paris is the capital.''), (''query'', ''Capital?'')]) 0
   = (Inl (500, ''timeout''), 6)"
  by (simp add: pipeline_eval critic_down_def text_eval)

subsection \<open>Diversified retrieval\<close>

lemma group_add_keys: "fst ` set (group_add src m gs) = insert src (fst ` set gs)"
  by (induction src m gs rule: group_add.induct) auto

lemma group_add_members:
  "(\<Union>(k, ms)\<in>set (group_add src m gs). set ms) = insert m (\<Union>(k, ms)\<in>set gs. set ms)"
  by (induction src m gs rule: group_add.induct) auto

lemma group_add_inv:
  "groups_inv gs \<Longrightarrow> groups_inv (group_add (source_of m) m gs)"
proof (induction gs)
  case Nil
  then show ?case by (simp add: groups_inv_def)
next
  case (Cons g gs)
  obtain k ms where g: "g = (k, ms)" by (cases g)
  from Cons.prems have tl: "groups_inv gs" by (auto simp: groups_inv_def)
  show ?case
  proof (cases "k = source_of m")
    case True
    with Cons.prems show ?thesis by (auto simp: groups_inv_def g)
  next
    case False
    have keys: "fst ` set (group_add (source_of m) m gs) = insert (source_of m) (fst ` set gs)"
      by (rule group_add_keys)
    from Cons.IH [OF tl] Cons.prems False keys show ?thesis
      by (auto simp: groups_inv_def g)
  qed
qed

lemma fold_group_add:
  "groups_inv gs \<Longrightarrow>
   groups_inv (fold (\<lambda>m acc. group_add (source_of m) m acc) ms gs)
   \<and> fst ` set (fold (\<lambda>m acc. group_add (source_of m) m acc) ms gs)
       = source_of ` set ms \<union> fst ` set gs
   \<and> (\<Union>(k, xs)\<in>set (fold (\<lambda>m acc. group_add (source_of m) m acc) ms gs). set xs)
       = set ms \<union> (\<Union>(k, xs)\<in>set gs. set xs)"
proof (induction ms arbitrary: gs)
  case Nil
  then show ?case by simp
next
  case (Cons m ms)
  from Cons.IH [OF group_add_inv [OF Cons.prems, of m]]
  show ?case by (simp add: group_add_keys group_add_members)
qed

lemma by_source_inv: "groups_inv (by_source ms)"
  using fold_group_add [of "[]" ms] by (simp add: by_source_def groups_inv_def)

lemma by_source_keys: "fst ` set (by_source ms) = source_of ` set ms"
  using fold_group_add [of "[]" ms] by (simp add: by_source_def groups_inv_def)

lemma by_source_members: "(\<Union>(k, xs)\<in>set (by_source ms). set xs) = set ms"
  using fold_group_add [of "[]" ms] by (simp add: by_source_def groups_inv_def)

lemma by_source_length: "length (by_source ms) = card (source_of ` set ms)"
proof -
  have "distinct (map fst (by_source ms))"
    using by_source_inv [of ms] by (simp add: groups_inv_def)
  then have "length (by_source ms) = card (set (map fst (by_source ms)))"
    by (metis distinct_card length_map)
  then show ?thesis by (simp add: by_source_keys)
qed

lemma py_take_pos: "0 \<le> n \<Longrightarrow> py_take n xs = take (nat n) xs"
  by (simp add: py_take_def)

lemma set_py_take: "set (py_take n xs) \<subseteq> set xs"
  by (auto simp: py_take_def dest: in_set_takeD)

lemma set_py_drop: "set (py_drop n xs) \<subseteq> set xs"
  by (auto simp: py_drop_def dest: in_set_dropD)

lemma set_sort_by_score: "set (sort_by_score ms) = set ms"
  by (simp add: sort_by_score_def)

lemma length_sort_by_score: "length (sort_by_score ms) = length ms"
  by (simp add: sort_by_score_def)

lemma first_pass_sources:
  assumes "groups_inv gs" "1 \<le> c"
  shows "source_of ` set (concat (map (\<lambda>(src, ms). py_take c ms) gs)) = fst ` set gs"
proof (intro equalityI subsetI)
  fix s assume "s \<in> source_of ` set (concat (map (\<lambda>(src, ms). py_take c ms) gs))"
  then obtain k ms m where g: "(k, ms) \<in> set gs" and m: "m \<in> set (py_take c ms)"
    and s: "s = source_of m" by auto
  from m set_py_take have "m \<in> set ms" by fast
  with g assms(1) have "source_of m = k" by (auto simp: groups_inv_def)
  with g s show "s \<in> fst ` set gs" by force
next
  fix s assume "s \<in> fst ` set gs"
  then obtain ms where g: "(s, ms) \<in> set gs" by auto
  with assms(1) have ne: "ms \<noteq> []" and src: "\<forall>m\<in>set ms. source_of m = s"
    by (auto simp: groups_inv_def)
  from assms(2) obtain j where j: "nat c = Suc j" by (cases "nat c") auto
  from ne assms(2) have "hd ms \<in> set (py_take c ms)"
    by (cases ms) (simp_all add: py_take_def j)
  moreover from ne src have "source_of (hd ms) = s" by simp
  ultimately show "s \<in> source_of ` set (concat (map (\<lambda>(src, ms). py_take c ms) gs))"
    using g by force
qed

lemma first_pass_length:
  "0 \<le> c \<Longrightarrow> length (concat (map (\<lambda>(src, ms). py_take c ms) gs)) \<le> nat c * length gs"
proof (induction gs)
  case Nil
  then show ?case by simp
next
  case (Cons g gs)
  obtain k ms where g: "g = (k, ms)" by (cases g)
  have "length (py_take c ms) \<le> nat c" using Cons.prems by (simp add: py_take_pos)
  with Cons show ?case by (simp add: g)
qed

lemma first_pass_heads:
  "\<forall>(k, ms)\<in>set gs. ms \<noteq> [] \<Longrightarrow>
   length (concat (map (\<lambda>(src, ms). py_take 1 ms) gs)) = length gs"
proof (induction gs)
  case Nil
  then show ?case by simp
next
  case (Cons g gs)
  obtain k ms where g: "g = (k, ms)" by (cases g)
  with Cons.prems have "ms \<noteq> []" by simp
  then have "length (py_take 1 ms) = 1" by (cases ms) (simp_all add: py_take_def)
  with Cons show ?case by (simp add: g)
qed

lemma diversify_members:
  "set (diversify top_k gs) \<subseteq> (\<Union>(k, ms)\<in>set gs. set ms)"
proof -
  have a: "set (concat (map (\<lambda>(src, ms). py_take c ms) gs)) \<subseteq> (\<Union>(k, ms)\<in>set gs. set ms)" for c
    using set_py_take by fastforce
  have b: "set (concat (map (\<lambda>(src, ms). py_drop c ms) gs)) \<subseteq> (\<Union>(k, ms)\<in>set gs. set ms)" for c
    using set_py_drop by fastforce
  have c: "set (py_take r (sort_by_score (concat (map (\<lambda>(src, ms). py_drop c ms) gs))))
             \<subseteq> (\<Union>(k, ms)\<in>set gs. set ms)" for r c
    using set_py_take [of r "sort_by_score (concat (map (\<lambda>(src, ms). py_drop c ms) gs))"] b [of c]
    by (simp add: set_sort_by_score)
  show ?thesis
    using a c by (auto simp: diversify_def Let_def)
qed

lemma final_matches_members: "set (final_matches top_k ms) \<subseteq> set ms"
proof -
  have "set (final_matches top_k ms) \<subseteq> set (diversify top_k (by_source ms))"
    using set_py_take [of top_k "sort_by_score (diversify top_k (by_source ms))"]
    by (simp add: final_matches_def set_sort_by_score)
  also have "\<dots> \<subseteq> (\<Union>(k, xs)\<in>set (by_source ms). set xs)"
    by (rule diversify_members)
  finally show ?thesis by (simp add: by_source_members)
qed

lemma final_matches_cover:
  assumes "int (card (source_of ` set ms)) \<le> top_k"
  shows "source_of ` set (final_matches top_k ms) = source_of ` set ms"
proof (cases "by_source ms = []")
  case True
  then have "source_of ` set ms = {}"
    using by_source_keys [of ms] by simp
  then have "ms = []" by simp
  then show ?thesis using final_matches_members [of top_k ms] by simp
next
  case False
  let ?gs = "by_source ms"
  let ?n = "int (length ?gs)"
  let ?c = "top_k div ?n"
  let ?first = "concat (map (\<lambda>(src, xs). py_take ?c xs) ?gs)"
  let ?rest = "concat (map (\<lambda>(src, xs). py_drop ?c xs) ?gs)"
  from False have n: "0 < ?n" by simp
  from assms have le: "?n \<le> top_k" by (simp add: by_source_length)
  have c: "1 \<le> ?c" using zdiv_mono1 [of ?n top_k ?n] n le by simp
  then have mx: "max 1 ?c = ?c" by simp
  have rem: "top_k - ?c * ?n = top_k mod ?n"
    by (simp add: minus_mult_div_eq_mod mult.commute)
  have rem0: "0 \<le> top_k mod ?n" using n by simp
  have div: "diversify top_k ?gs =
      (if 0 < top_k mod ?n then ?first @ py_take (top_k mod ?n) (sort_by_score ?rest) else ?first)"
    unfolding diversify_def Let_def mx rem using False by simp
  have l1: "length ?first \<le> nat ?c * length ?gs"
    using c by (intro first_pass_length) simp
  have l2: "length (py_take (top_k mod ?n) (sort_by_score ?rest)) \<le> nat (top_k mod ?n)"
    using rem0 by (simp add: py_take_pos)
  have "int (nat ?c) = ?c" using c by simp
  then have "int (nat ?c * length ?gs) = ?c * ?n" by simp
  moreover have "int (nat (top_k mod ?n)) = top_k mod ?n" using rem0 by simp
  moreover have "?c * ?n + top_k mod ?n = top_k" by simp
  ultimately have tot: "int (nat ?c * length ?gs + nat (top_k mod ?n)) = top_k"
    by (simp only: of_nat_add)
  have "length (diversify top_k ?gs) \<le> nat ?c * length ?gs + nat (top_k mod ?n)"
    using l1 l2 by (auto simp: div)
  with tot have "int (length (diversify top_k ?gs)) \<le> top_k" by linarith
  moreover from le n have "0 \<le> top_k" by simp
  ultimately have fin: "final_matches top_k ms = sort_by_score (diversify top_k ?gs)"
    by (simp add: final_matches_def py_take_pos length_sort_by_score)
  have "set ?first \<subseteq> set (diversify top_k ?gs)" by (auto simp: div)
  then have "source_of ` set ?first \<subseteq> source_of ` set (diversify top_k ?gs)"
    by (rule image_mono)
  then have "source_of ` set ?first \<subseteq> source_of ` set (final_matches top_k ms)"
    by (simp only: fin set_sort_by_score)
  moreover have "source_of ` set ?first = fst ` set ?gs"
    using by_source_inv c by (rule first_pass_sources)
  ultimately have "source_of ` set ms \<subseteq> source_of ` set (final_matches top_k ms)"
    by (simp add: by_source_keys)
  with final_matches_members [of top_k ms] show ?thesis by blast
qed

lemma final_matches_length:
  assumes "0 \<le> top_k" "top_k < int (card (source_of ` set ms))"
  shows "length (final_matches top_k ms) = nat top_k"
proof -
  let ?gs = "by_source ms"
  let ?n = "int (length ?gs)"
  from assms have lt: "top_k < ?n" by (simp add: by_source_length)
  with assms(1) have ne: "?gs \<noteq> []" by auto
  from assms(1) lt have c: "top_k div ?n = 0" by (simp add: div_pos_pos_trivial)
  have div: "diversify top_k ?gs = concat (map (\<lambda>(src, xs). py_take 1 xs) ?gs)"
    using ne lt by (simp add: diversify_def Let_def c)
  have "\<forall>(k, xs)\<in>set ?gs. xs \<noteq> []"
    using by_source_inv [of ms] by (auto simp: groups_inv_def)
  then have "length (diversify top_k ?gs) = length ?gs"
    unfolding div by (rule first_pass_heads)
  with assms(1) lt show ?thesis
    by (simp add: final_matches_def py_take_pos length_sort_by_score)
qed

lemma format_results_ok:
  assumes "\<forall>m\<in>set ms. has_metadata m"
  shows "length (format_results ms) = length ms
       \<and> doc_source ` set (format_results ms) = source_of ` set ms"
proof -
  have conv: "to_retrieved m \<noteq> None \<and> doc_source (the (to_retrieved m)) = source_of m"
    if "m \<in> set ms" for m
    using assms that
    by (auto simp: has_metadata_def to_retrieved_def source_of_def split: option.splits)
  then have all: "list_all (\<lambda>m. to_retrieved m \<noteq> None) ms"
    by (simp add: list_all_iff)
  then have f: "format_results ms = map (\<lambda>m. the (to_retrieved m)) ms"
    by (simp add: format_results_def)
  have "doc_source ` set (format_results ms) = (\<lambda>m. doc_source (the (to_retrieved m))) ` set ms"
    by (simp add: f image_image)
  also have "\<dots> = source_of ` set ms"
    using conv by (intro image_cong) simp_all
  finally show ?thesis by (simp add: f)
qed

text \<open>
  C1: when both queries succeed and every candidate carries its text, source and domain,
  then for a non-negative \<open>top_k\<close>: if the candidates come from at most \<open>top_k\<close> sources,
  the sources of the returned documents are all the sources of the candidates; and if they
  come from more than \<open>top_k\<close> sources, exactly \<open>top_k\<close> documents are returned, from at
  most \<open>top_k\<close> sources.
\<close>

theorem diversified_retrieval:
  assumes "0 \<le> top_k"
    and "query_default search query domain top_k user_id = Inr default_matches"
    and "query_reports search query domain top_k include_reports = Inr report_matches"
    and "\<forall>m\<in>set (candidates top_k default_matches report_matches). has_metadata m"
  shows "(int (card (source_of ` set (candidates top_k default_matches report_matches))) \<le> top_k
          \<longrightarrow> doc_source ` set (retrieve_documents search query domain top_k user_id include_reports)
              = source_of ` set (candidates top_k default_matches report_matches))
       \<and> (top_k < int (card (source_of ` set (candidates top_k default_matches report_matches)))
          \<longrightarrow> length (retrieve_documents search query domain top_k user_id include_reports)
                = nat top_k
            \<and> card (doc_source ` set
                 (retrieve_documents search query domain top_k user_id include_reports))
                \<le> nat top_k)"
proof -
  let ?cands = "candidates top_k default_matches report_matches"
  let ?res = "retrieve_documents search query domain top_k user_id include_reports"
  have res: "?res = format_results (final_matches top_k ?cands)"
    using assms(2,3) by (simp add: retrieve_documents_def)
  have "\<forall>m\<in>set (final_matches top_k ?cands). has_metadata m"
    using assms(4) final_matches_members [of top_k ?cands] by blast
  from format_results_ok [OF this]
  have len: "length ?res = length (final_matches top_k ?cands)"
    and src: "doc_source ` set ?res = source_of ` set (final_matches top_k ?cands)"
    by (simp_all add: res)
  have cover: "doc_source ` set ?res = source_of ` set ?cands"
    if "int (card (source_of ` set ?cands)) \<le> top_k"
    using that src by (simp add: final_matches_cover)
  have few: "length ?res = nat top_k \<and> card (doc_source ` set ?res) \<le> nat top_k"
    if lt: "top_k < int (card (source_of ` set ?cands))"
  proof -
    have l: "length ?res = nat top_k"
      using assms(1) lt len by (simp add: final_matches_length)
    have "card (doc_source ` set ?res) \<le> card (set ?res)"
      by (intro card_image_le) simp
    also have "\<dots> \<le> length ?res" by (rule card_length)
    finally show ?thesis using l by simp
  qed
  from cover few show ?thesis by blast
qed

theorem diversified_retrieval_witness:
  "doc_source ` set (retrieve_documents example_search ''q'' None 3 None False)
     = {''A'', ''B'', ''C''}
   \<and> length (retrieve_documents example_search ''q'' None 2 None False) = 2"
proof -
  let ?ms = "[example_match (9 / 10) ''A'', example_match (8 / 10) ''A'',
              example_match (7 / 10) ''B'', example_match (6 / 10) ''C'']"
  have d3: "query_default example_search ''q'' None 3 None = Inr ?ms"
    and d2: "query_default example_search ''q'' None 2 None = Inr ?ms"
    by (simp_all add: query_default_def domain_filter_def user_filter_def example_search_def)
  have r3: "query_reports example_search ''q'' None 3 False = Inr []"
    and r2: "query_reports example_search ''q'' None 2 False = Inr []"
    by (simp_all add: query_reports_def)
  have cands3: "candidates 3 ?ms [] = ?ms" and cands2: "candidates 2 ?ms [] = ?ms"
    by (simp_all add: candidates_def py_take_def sort_by_score_def example_match_def)
  have m3: "\<forall>m\<in>set (candidates 3 ?ms []). has_metadata m"
    and m2: "\<forall>m\<in>set (candidates 2 ?ms []). has_metadata m"
    unfolding cands3 cands2 by (simp_all add: has_metadata_def example_match_def)
  have s: "source_of ` set ?ms = {''A'', ''B'', ''C''}"
    by (auto simp: source_of_def example_match_def)
  have k: "card {''A'', ''B'', ''C''} = 3" by simp
  have z3: "(0::int) \<le> 3" and z2: "(0::int) \<le> 2" by simp_all
  from diversified_retrieval [OF z3 d3 r3 m3, unfolded cands3 s k] have
    "doc_source ` set (retrieve_documents example_search ''q'' None 3 None False)
       = {''A'', ''B'', ''C''}"
    by simp
  moreover from diversified_retrieval [OF z2 d2 r2 m2, unfolded cands2 s k] have
    "length (retrieve_documents example_search ''q'' None 2 None False) = 2"
    by simp
  ultimately show ?thesis by simp
qed

end
